theory Spec2Isabelle
  imports
    Complex_Main
    "HOL-Library.Sublist"
    "HOL-Library.Char_ord"
    "HOL-Library.List_Lexorder"
    "HOL-Library.Product_Lexorder"
    "HOL-Library.AList"
    "HOL-Library.Multiset"
begin

section \<open>Strings as the evaluator uses them\<close>

text \<open>
  Method identifiers are modelled as \<^typ>\<open>string\<close>. The Python string operations used by
  \<^verbatim>\<open>evaluation.py\<close> are written out for the ASCII range: \<^verbatim>\<open>str.strip()\<close> removes the
  characters Python counts as white space (code points 9 to 13 and 28 to 32),
  \<^verbatim>\<open>str.lower()\<close> maps \<^verbatim>\<open>A\<close>..\<^verbatim>\<open>Z\<close> to \<^verbatim>\<open>a\<close>..\<^verbatim>\<open>z\<close>; every other character is
  left alone.
\<close>

definition is_space :: "char \<Rightarrow> bool" where
  "is_space c = (let n = (of_char c :: nat) in (9 \<le> n \<and> n \<le> 13) \<or> (28 \<le> n \<and> n \<le> 32))"

text \<open>\<^verbatim>\<open>s.strip()\<close>\<close>

definition strip :: "string \<Rightarrow> string" where
  "strip s = rev (dropWhile is_space (rev (dropWhile is_space s)))"

text \<open>
  \<^verbatim>\<open>s.rsplit(sep, 1)[-1]\<close>: what follows the occurrence of \<open>sep\<close> that starts furthest
  to the right, and \<open>s\<close> itself when \<open>sep\<close> does not occur. \<^verbatim>\<open>sep in s\<close> is
  \<^term>\<open>sublist sep s\<close>.
\<close>

fun rsplit_last :: "string \<Rightarrow> string \<Rightarrow> string" where
  "rsplit_last sep [] = []"
| "rsplit_last sep (c # cs) =
     (if sublist sep cs then rsplit_last sep cs
      else if prefix sep (c # cs) then drop (length sep) (c # cs)
      else c # cs)"

text \<open>\<^verbatim>\<open>s.split(d)[0]\<close> for a one-character delimiter.\<close>

definition split_first :: "char \<Rightarrow> string \<Rightarrow> string" where
  "split_first d s = takeWhile (\<lambda>c. c \<noteq> d) s"

definition lower_char :: "char \<Rightarrow> char" where
  "lower_char c =
     (let n = (of_char c :: nat) in
      if 65 \<le> n \<and> n \<le> 90
      then (case c of Char b0 b1 b2 b3 b4 b5 b6 b7 \<Rightarrow> Char b0 b1 b2 b3 b4 True b6 b7)
      else c)"

text \<open>\<^verbatim>\<open>s.lower()\<close>\<close>

definition lower :: "string \<Rightarrow> string" where
  "lower s = map lower_char s"

text \<open>\<^verbatim>\<open>xs[:k]\<close> for a Python integer \<open>k\<close>: a negative \<open>k\<close> drops the last \<open>-k\<close> elements.\<close>

definition py_prefix :: "int \<Rightarrow> 'a list \<Rightarrow> 'a list" where
  "py_prefix k xs = (if 0 \<le> k then take (nat k) xs else take (length xs - nat (- k)) xs)"

section \<open>Metrics evaluator (\<^verbatim>\<open>evaluation.py\<close>)\<close>

subsection \<open>\<^verbatim>\<open>normalize_method\<close>\<close>

text \<open>The body of the loop \<^verbatim>\<open>for sep in ["#", "::", "."]\<close>: there is no \<^verbatim>\<open>break\<close>.\<close>

definition apply_sep :: "string \<Rightarrow> string \<Rightarrow> string" where
  "apply_sep sep method = (if sublist sep method then rsplit_last sep method else method)"

definition normalize_method :: "string \<Rightarrow> string" where
  "normalize_method method0 =
     (let method = strip method0;
          method = fold apply_sep [''#'', ''::'', ''.''] method;
          method = (if CHR ''('' \<in> set method then split_first CHR ''('' method else method)
      in lower method)"

subsection \<open>\<^verbatim>\<open>evaluate_bug\<close>\<close>

text \<open>
  The returned dictionary is a record. Python's floats are modelled as exact rationals;
  the truth set is a set of strings.
\<close>

record eval_metrics =
  top_1 :: bool
  top_3 :: bool
  top_5 :: bool
  precision :: rat
  recall :: rat
  f1 :: rat
  accuracy :: rat

definition evaluate_bug :: "string list \<Rightarrow> string set \<Rightarrow> int \<Rightarrow> eval_metrics" where
  "evaluate_bug predicted actual k =
     (let pred_norm = map normalize_method (py_prefix k predicted);
          actual_norm = normalize_method ` actual;
          pred_set = set pred_norm;
          tp = int (card (pred_set \<inter> actual_norm));
          fp = int (card (pred_set - actual_norm));
          fn = int (card (actual_norm - pred_set));
          tn = max 0 (k - tp - fp);
          precision = (if tp + fp > 0 then of_int tp / of_int (tp + fp) else 0);
          recall = (if tp + fn > 0 then of_int tp / of_int (tp + fn) else 0);
          f1 = (if precision + recall > 0
                then 2 * precision * recall / (precision + recall) else 0);
          accuracy = (if k > 0 then of_int (tp + tn) / of_int k else 0)
      in \<lparr> top_1 = (set (take 1 pred_norm) \<inter> actual_norm \<noteq> {}),
           top_3 = (set (take 3 pred_norm) \<inter> actual_norm \<noteq> {}),
           top_5 = (set (take 5 pred_norm) \<inter> actual_norm \<noteq> {}),
           precision = precision, recall = recall, f1 = f1, accuracy = accuracy \<rparr>)"

section \<open>Normalization, by positions\<close>

text \<open>
  The start positions of \<open>sep\<close> in \<open>s\<close>, the text after the occurrence that starts
  last, and the text before the first opening parenthesis, by position.
\<close>

definition occurrences :: "string \<Rightarrow> string \<Rightarrow> nat list" where
  "occurrences sep s = filter (\<lambda>i. take (length sep) (drop i s) = sep) [0..<length s]"

definition after_last_occurrence :: "string \<Rightarrow> string \<Rightarrow> string" where
  "after_last_occurrence sep s =
     (if occurrences sep s = [] then s else drop (last (occurrences sep s) + length sep) s)"

definition before_first_paren :: "string \<Rightarrow> string" where
  "before_first_paren s = take (length (takeWhile (\<lambda>c. c \<noteq> CHR ''('') s)) s"

text \<open>
  Normalization as the specification words it: only the first separator class found, in
  the priority \<^verbatim>\<open>#\<close>, \<^verbatim>\<open>::\<close>, \<^verbatim>\<open>.\<close>, is applied.
\<close>

definition normalize_first_found :: "string \<Rightarrow> string" where
  "normalize_first_found x =
     (let m = strip x;
          m = (if occurrences ''#'' m \<noteq> [] then after_last_occurrence ''#'' m
               else if occurrences ''::'' m \<noteq> [] then after_last_occurrence ''::'' m
               else after_last_occurrence ''.'' m)
      in lower (before_first_paren m))"

text \<open>Normalization with every separator class applied in turn.\<close>

definition normalize_sequential :: "string \<Rightarrow> string" where
  "normalize_sequential x =
     lower (before_first_paren
       (after_last_occurrence ''.''
         (after_last_occurrence ''::''
           (after_last_occurrence ''#'' (strip x)))))"

section \<open>Inference engine (\<^verbatim>\<open>engine.py\<close>)\<close>

subsection \<open>Parsed JSON\<close>

text \<open>
  What \<^verbatim>\<open>json.loads\<close> returns. A dictionary is an association list, looked up by its
  first binding of a key. A number is its value.
\<close>

datatype json =
    JNull
  | JBool bool
  | JNumber rat
  | JString string
  | JArray "json list"
  | JObject "(string \<times> json) list"

text \<open>Python's truth value of a parsed JSON value, and \<^verbatim>\<open>d.get(k, default)\<close>.\<close>

fun truthy :: "json \<Rightarrow> bool" where
  "truthy JNull = False"
| "truthy (JBool b) = b"
| "truthy (JNumber n) = (n \<noteq> 0)"
| "truthy (JString s) = (s \<noteq> [])"
| "truthy (JArray xs) = (xs \<noteq> [])"
| "truthy (JObject kvs) = (kvs \<noteq> [])"

definition dict_get :: "(string \<times> json) list \<Rightarrow> string \<Rightarrow> json \<Rightarrow> json" where
  "dict_get d k dflt = (case map_of d k of None \<Rightarrow> dflt | Some v \<Rightarrow> v)"

text \<open>
  \<^verbatim>\<open>str(v)\<close>: a string is itself. How Python prints any other value is the parameter
  \<open>render\<close> of the functions below.
\<close>

definition py_str :: "(json \<Rightarrow> string) \<Rightarrow> json \<Rightarrow> string" where
  "py_str render v = (case v of JString s \<Rightarrow> s | _ \<Rightarrow> render v)"

text \<open>\<^verbatim>\<open>str(i)\<close> for an integer, as the f-strings of the error messages use it.\<close>

fun digits :: "nat \<Rightarrow> string" where
  "digits n = (if n < 10 then [char_of (48 + n)] else digits (n div 10) @ [char_of (48 + n mod 10)])"

definition str_int :: "int \<Rightarrow> string" where
  "str_int i = (if i < 0 then CHR ''-'' # digits (nat (- i)) else digits (nat i))"

subsection \<open>Data classes\<close>

record LLMResponse =
  raw_text :: string
  parsed_json :: "(string \<times> json) list option"
  error :: "string option"
  latency_seconds :: rat

text \<open>An entry \<^verbatim>\<open>{"method": ..., "justification": ...}\<close> of a ranking.\<close>

record ranked_method =
  method_identifier :: string
  justification :: string

text \<open>
  The entries of \<^verbatim>\<open>all_iterations\<close>: \<^verbatim>\<open>{"iteration", "methods", "latency_seconds"}\<close> in
  the iterative strategy, \<^verbatim>\<open>{"run", "methods"}\<close> in self-consistency.
\<close>

datatype history_entry =
    Iteration int "ranked_method list" rat
  | Run int "ranked_method list"

fun entry_methods :: "history_entry \<Rightarrow> ranked_method list" where
  "entry_methods (Iteration i ms l) = ms"
| "entry_methods (Run i ms) = ms"

record InferenceResult =
  final_ranking :: "ranked_method list"
  iterations_used :: int
  converged :: bool
  all_iterations :: "history_entry list"
  expected_behavior :: "string list option"
  errors :: "string list"
  total_latency_seconds :: rat

subsection \<open>\<^verbatim>\<open>extract_top_k_methods\<close>\<close>

text \<open>The body of \<^verbatim>\<open>for item in top_k\<close>, with \<open>results\<close> passed through.\<close>

definition extract_item :: "(json \<Rightarrow> string) \<Rightarrow> json \<Rightarrow> ranked_method list \<Rightarrow> ranked_method list" where
  "extract_item render item results =
     (case item of
        JObject d \<Rightarrow>
          (let m = (if truthy (dict_get d ''method'' (JString ''''))
                    then dict_get d ''method'' (JString '''')
                    else dict_get d ''method_name'' (JString ''''))
           in if truthy m
              then results @
                   [\<lparr> method_identifier = strip (py_str render m),
                      justification = strip (py_str render (dict_get d ''justification'' (JString ''''))) \<rparr>]
              else results)
      | _ \<Rightarrow> results)"

definition extract_top_k_methods :: "(json \<Rightarrow> string) \<Rightarrow> LLMResponse \<Rightarrow> ranked_method list" where
  "extract_top_k_methods render response =
     (case parsed_json response of
        None \<Rightarrow> []
      | Some d \<Rightarrow>
          (case dict_get d ''top_k'' (JArray []) of
             JArray top_k \<Rightarrow> fold (extract_item render) top_k []
           | _ \<Rightarrow> []))"

subsection \<open>\<^verbatim>\<open>run_zero_shot_iterative\<close>\<close>

text \<open>
  The oracle is outside the program: \<open>client\<close> gives the response to the call of an
  iteration, which may depend on the previous candidates embedded in the prompt. The
  previous candidates are kept as the JSON value that \<^verbatim>\<open>methods_to_json\<close> serialises.
  Writing the intermediate files and the printing are left out.

  \<^verbatim>\<open>response.error and response.parsed_json is None\<close>:
\<close>

definition call_failed :: "LLMResponse \<Rightarrow> bool" where
  "call_failed response =
     ((case error response of None \<Rightarrow> False | Some e \<Rightarrow> e \<noteq> []) \<and> parsed_json response = None)"

text \<open>\<^verbatim>\<open>response.error\<close> as the f-string of the error message prints it.\<close>

definition error_text :: "LLMResponse \<Rightarrow> string" where
  "error_text response = (case error response of None \<Rightarrow> ''None'' | Some e \<Rightarrow> e)"

text \<open>\<^verbatim>\<open>methods_to_json\<close>, up to the serialisation of the value by \<^verbatim>\<open>json.dumps\<close>.\<close>

definition methods_to_json :: "ranked_method list \<Rightarrow> json" where
  "methods_to_json methods =
     JArray (map (\<lambda>m. JObject [(''method'', JString (method_identifier m))]) methods)"

text \<open>
  The loop \<^verbatim>\<open>for iteration in range(1, max_iterations + 1)\<close> over the list of its
  iterations, the local variables as arguments; the first equation is the code after the
  loop.
\<close>

fun zero_shot_loop ::
  "(json \<Rightarrow> string) \<Rightarrow> (int \<Rightarrow> json \<Rightarrow> LLMResponse) \<Rightarrow> int \<Rightarrow> int list \<Rightarrow>
   json \<Rightarrow> string list option \<Rightarrow> history_entry list \<Rightarrow> rat \<Rightarrow> string list \<Rightarrow> InferenceResult"
where
  "zero_shot_loop render client max_iterations [] prev_candidates prev_methods iters latency errs =
     \<lparr> final_ranking = (if iters \<noteq> [] then entry_methods (last iters) else []),
       iterations_used = max_iterations, converged = False, all_iterations = iters,
       expected_behavior = None, errors = errs, total_latency_seconds = latency \<rparr>"
| "zero_shot_loop render client max_iterations (iteration # rest) prev_candidates prev_methods
      iters latency errs =
     (let response = client iteration prev_candidates;
          latency = latency + latency_seconds response
      in if call_failed response
         then zero_shot_loop render client max_iterations rest prev_candidates prev_methods iters
                latency (errs @ [''Iteration '' @ str_int iteration @ '': '' @ error_text response])
         else
           (let methods = extract_top_k_methods render response;
                method_names = map method_identifier methods;
                iters = iters @ [Iteration iteration methods (latency_seconds response)]
            in if prev_methods \<noteq> None \<and> Some method_names = prev_methods
               then \<lparr> final_ranking = methods, iterations_used = iteration, converged = True,
                      all_iterations = iters, expected_behavior = None, errors = errs,
                      total_latency_seconds = latency \<rparr>
               else zero_shot_loop render client max_iterations rest (methods_to_json methods)
                      (Some method_names) iters latency errs))"

definition run_zero_shot_iterative ::
  "(json \<Rightarrow> string) \<Rightarrow> (int \<Rightarrow> json \<Rightarrow> LLMResponse) \<Rightarrow> int \<Rightarrow> InferenceResult" where
  "run_zero_shot_iterative render client max_iterations =
     zero_shot_loop render client max_iterations [1..max_iterations] (JArray []) None [] 0 []"

subsection \<open>\<^verbatim>\<open>_aggregate_results\<close>\<close>

text \<open>
  \<open>stats\<close> is a dictionary in insertion order: an association list, a new key added at
  its end. \<open>add_item\<close> is the body of the inner loop over \<^verbatim>\<open>enumerate(..., start=1)\<close>.
\<close>

record method_stats =
  count :: nat
  ranks :: "nat list"
  justifications :: "string list"

definition add_item :: "nat \<times> ranked_method \<Rightarrow> (string \<times> method_stats) list \<Rightarrow> (string \<times> method_stats) list" where
  "add_item p stats =
     (case p of (rank, item) \<Rightarrow>
        if method_identifier item = [] then stats
        else
          (let s = (case map_of stats (method_identifier item) of
                      None \<Rightarrow> \<lparr> count = 0, ranks = [], justifications = [] \<rparr>
                    | Some s \<Rightarrow> s)
           in AList.update (method_identifier item)
                \<lparr> count = count s + 1, ranks = ranks s @ [rank],
                  justifications =
                    (if justification item \<noteq> [] then justifications s @ [justification item]
                     else justifications s) \<rparr>
                stats))"

definition add_run :: "history_entry \<Rightarrow> (string \<times> method_stats) list \<Rightarrow> (string \<times> method_stats) list" where
  "add_run run stats = fold add_item (enumerate 1 (entry_methods run)) stats"

definition collect_stats :: "history_entry list \<Rightarrow> (string \<times> method_stats) list" where
  "collect_stats runs = fold add_run runs []"

text \<open>\<^verbatim>\<open>min(js, key=len) if js else ""\<close>: the first of the shortest strings.\<close>

definition shortest :: "string list \<Rightarrow> string" where
  "shortest js = (case js of [] \<Rightarrow> [] | j # rest \<Rightarrow>
      fold (\<lambda>x best. if length x < length best then x else best) rest j)"

definition stats_item :: "string \<times> method_stats \<Rightarrow> string \<times> nat \<times> rat \<times> string" where
  "stats_item p = (case p of (m, s) \<Rightarrow>
     (m, count s, of_nat (sum_list (ranks s)) / of_nat (length (ranks s)),
      shortest (justifications s)))"

text \<open>
  \<^verbatim>\<open>items.sort(key=lambda x: (-x[1], x[2]))\<close>: a stable sort, pairs compared
  lexicographically. The average rank, a float in the source, is an exact rational.
\<close>

definition sort_key_of :: "string \<times> nat \<times> rat \<times> string \<Rightarrow> int \<times> rat" where
  "sort_key_of x = (case x of (m, c, a, j) \<Rightarrow> (- int c, a))"

definition aggregate_results :: "history_entry list \<Rightarrow> int \<Rightarrow> ranked_method list" where
  "aggregate_results runs top_k =
     (let items = map stats_item (collect_stats runs);
          items = sort_key sort_key_of items
      in map (\<lambda>(m, c, a, j). \<lparr> method_identifier = m, justification = j \<rparr>) (py_prefix top_k items))"

subsection \<open>\<^verbatim>\<open>run_self_consistency\<close>\<close>

fun self_consistency_loop ::
  "(json \<Rightarrow> string) \<Rightarrow> (int \<Rightarrow> LLMResponse) \<Rightarrow> int list \<Rightarrow> history_entry list \<Rightarrow> rat \<Rightarrow>
   string list \<Rightarrow> history_entry list \<times> rat \<times> string list"
where
  "self_consistency_loop render client [] all_runs latency errs = (all_runs, latency, errs)"
| "self_consistency_loop render client (run_idx # rest) all_runs latency errs =
     (let response = client run_idx;
          latency = latency + latency_seconds response
      in if call_failed response
         then self_consistency_loop render client rest all_runs latency
                (errs @ [''Run '' @ str_int run_idx @ '': '' @ error_text response])
         else self_consistency_loop render client rest
                (all_runs @ [Run run_idx (extract_top_k_methods render response)]) latency errs)"

definition run_self_consistency ::
  "(json \<Rightarrow> string) \<Rightarrow> (int \<Rightarrow> LLMResponse) \<Rightarrow> int \<Rightarrow> int \<Rightarrow> InferenceResult" where
  "run_self_consistency render client num_runs top_k =
     (case self_consistency_loop render client [1..num_runs] [] 0 [] of
        (all_runs, latency, errs) \<Rightarrow>
          \<lparr> final_ranking = aggregate_results all_runs top_k, iterations_used = num_runs,
            converged = True, all_iterations = all_runs, expected_behavior = None,
            errors = errs, total_latency_seconds = latency \<rparr>)"

section \<open>The parser, entry by entry\<close>

text \<open>
  The array under \<^verbatim>\<open>top_k\<close>, the value an entry offers as its method, whether the parser
  keeps the entry, and the ranking entry it makes of it.
\<close>

definition top_k_array :: "LLMResponse \<Rightarrow> json list" where
  "top_k_array response =
     (case parsed_json response of
        None \<Rightarrow> []
      | Some d \<Rightarrow> (case dict_get d ''top_k'' (JArray []) of JArray xs \<Rightarrow> xs | _ \<Rightarrow> []))"

definition method_value :: "json \<Rightarrow> json" where
  "method_value item =
     (case item of
        JObject d \<Rightarrow>
          (if truthy (dict_get d ''method'' (JString ''''))
           then dict_get d ''method'' (JString '''')
           else dict_get d ''method_name'' (JString ''''))
      | _ \<Rightarrow> JNull)"

definition accepted :: "json \<Rightarrow> bool" where
  "accepted item = truthy (method_value item)"

definition entry_of :: "(json \<Rightarrow> string) \<Rightarrow> json \<Rightarrow> ranked_method" where
  "entry_of render item =
     \<lparr> method_identifier = strip (py_str render (method_value item)),
       justification =
         strip (py_str render
           (case item of JObject d \<Rightarrow> dict_get d ''justification'' (JString '''')
            | _ \<Rightarrow> JString '''')) \<rparr>"

section \<open>Example responses\<close>

text \<open>A response that names the same method twice, and a client whose every call fails.\<close>

definition dup_response :: LLMResponse where
  "dup_response =
     \<lparr> raw_text = ''{\"top_k\": [{\"method\": \"a\"}, {\"method\": \"a\"}]}'',
       parsed_json = Some [(''top_k'', JArray [JObject [(''method'', JString ''a'')],
                                               JObject [(''method'', JString ''a'')]])],
       error = None, latency_seconds = 0 \<rparr>"

definition failing_client :: "int \<Rightarrow> LLMResponse" where
  "failing_client i = \<lparr> raw_text = '''', parsed_json = None, error = Some ''timeout'', latency_seconds = 1 \<rparr>"

section \<open>Runs of the iterative strategy\<close>

text \<open>
  What a run meets, iteration by iteration, as long as it has not stopped: the two variables
  of the loop that feed the next call and the comparison (\<open>prev_candidates\<close>,
  \<open>prev_methods\<close>) before iteration \<open>i\<close>, the response of iteration \<open>i\<close>, whether it counts
  as successful, and the ranking and the identifier sequence parsed from it.
\<close>

definition advance ::
  "(json \<Rightarrow> string) \<Rightarrow> (int \<Rightarrow> json \<Rightarrow> LLMResponse) \<Rightarrow> int \<Rightarrow>
   json \<times> string list option \<Rightarrow> json \<times> string list option" where
  "advance render client i st =
     (case st of (prev_candidates, prev_methods) \<Rightarrow>
        (let response = client i prev_candidates
         in if call_failed response then (prev_candidates, prev_methods)
            else (methods_to_json (extract_top_k_methods render response),
                  Some (map method_identifier (extract_top_k_methods render response)))))"

definition state_before ::
  "(json \<Rightarrow> string) \<Rightarrow> (int \<Rightarrow> json \<Rightarrow> LLMResponse) \<Rightarrow> int \<Rightarrow> json \<times> string list option" where
  "state_before render client i = fold (advance render client) [1..i - 1] (JArray [], None)"

definition response_at :: "(json \<Rightarrow> string) \<Rightarrow> (int \<Rightarrow> json \<Rightarrow> LLMResponse) \<Rightarrow> int \<Rightarrow> LLMResponse" where
  "response_at render client i = client i (fst (state_before render client i))"

definition successful :: "(json \<Rightarrow> string) \<Rightarrow> (int \<Rightarrow> json \<Rightarrow> LLMResponse) \<Rightarrow> int \<Rightarrow> bool" where
  "successful render client i = (\<not> call_failed (response_at render client i))"

definition ranking_at :: "(json \<Rightarrow> string) \<Rightarrow> (int \<Rightarrow> json \<Rightarrow> LLMResponse) \<Rightarrow> int \<Rightarrow> ranked_method list" where
  "ranking_at render client i = extract_top_k_methods render (response_at render client i)"

definition names_at :: "(json \<Rightarrow> string) \<Rightarrow> (int \<Rightarrow> json \<Rightarrow> LLMResponse) \<Rightarrow> int \<Rightarrow> string list" where
  "names_at render client i = map method_identifier (ranking_at render client i)"

text \<open>
  The convergence rule in the words of the specification: iteration \<open>i\<close> is successful, an
  earlier successful iteration exists, and the most recent one has the same identifiers in
  the same order.
\<close>

definition converges_at :: "(json \<Rightarrow> string) \<Rightarrow> (int \<Rightarrow> json \<Rightarrow> LLMResponse) \<Rightarrow> int \<Rightarrow> bool" where
  "converges_at render client i =
     (successful render client i \<and>
      (\<exists>j\<in>{1..<i}. successful render client j
          \<and> (\<forall>l\<in>{j<..<i}. \<not> successful render client l)
          \<and> names_at render client j = names_at render client i))"

text \<open>
  The history, the error messages and the latency accumulated over the iterations
  \<open>1..n\<close>, and the result of a run that stops at a given iteration or runs out of
  iterations.
\<close>

definition history_upto :: "(json \<Rightarrow> string) \<Rightarrow> (int \<Rightarrow> json \<Rightarrow> LLMResponse) \<Rightarrow> int \<Rightarrow> history_entry list" where
  "history_upto render client n =
     map (\<lambda>j. Iteration j (ranking_at render client j) (latency_seconds (response_at render client j)))
       (filter (successful render client) [1..n])"

definition errors_upto :: "(json \<Rightarrow> string) \<Rightarrow> (int \<Rightarrow> json \<Rightarrow> LLMResponse) \<Rightarrow> int \<Rightarrow> string list" where
  "errors_upto render client n =
     map (\<lambda>j. ''Iteration '' @ str_int j @ '': '' @ error_text (response_at render client j))
       (filter (\<lambda>j. \<not> successful render client j) [1..n])"

definition latency_upto :: "(json \<Rightarrow> string) \<Rightarrow> (int \<Rightarrow> json \<Rightarrow> LLMResponse) \<Rightarrow> int \<Rightarrow> rat" where
  "latency_upto render client n =
     sum_list (map (\<lambda>j. latency_seconds (response_at render client j)) [1..n])"

definition outcome ::
  "(json \<Rightarrow> string) \<Rightarrow> (int \<Rightarrow> json \<Rightarrow> LLMResponse) \<Rightarrow> int \<Rightarrow> int option \<Rightarrow> InferenceResult" where
  "outcome render client max_iterations stop =
     (case stop of
        Some c \<Rightarrow>
          \<lparr> final_ranking = ranking_at render client c, iterations_used = c, converged = True,
            all_iterations = history_upto render client c, expected_behavior = None,
            errors = errors_upto render client c,
            total_latency_seconds = latency_upto render client c \<rparr>
      | None \<Rightarrow>
          \<lparr> final_ranking =
              (if history_upto render client max_iterations \<noteq> []
               then entry_methods (last (history_upto render client max_iterations)) else []),
            iterations_used = max_iterations, converged = False,
            all_iterations = history_upto render client max_iterations, expected_behavior = None,
            errors = errors_upto render client max_iterations,
            total_latency_seconds = latency_upto render client max_iterations \<rparr>)"

text \<open>
  A client that answers \<open>[X, Y]\<close>, fails, then answers \<open>[Y, X]\<close> twice, and fails from
  then on.
\<close>

definition ranking_response :: "string list \<Rightarrow> LLMResponse" where
  "ranking_response names =
     \<lparr> raw_text = '''',
       parsed_json = Some [(''top_k'', JArray (map (\<lambda>n. JObject [(''method'', JString n)]) names))],
       error = None, latency_seconds = 1 \<rparr>"

definition flaky_client :: "int \<Rightarrow> json \<Rightarrow> LLMResponse" where
  "flaky_client i prev_candidates =
     (if i = 1 then ranking_response [''X'', ''Y'']
      else if i = 3 \<or> i = 4 then ranking_response [''Y'', ''X'']
      else failing_client i)"

section \<open>Consensus voting, as specified\<close>

text \<open>
  All positions handed to the inner loop, round after round; the identifiers in the order
  in which they are first seen; and the statistics of one identifier read off the
  positions.
\<close>

definition round_occurrences :: "history_entry list \<Rightarrow> (nat \<times> ranked_method) list" where
  "round_occurrences runs = concat (map (\<lambda>run. enumerate 1 (entry_methods run)) runs)"

definition first_seen :: "'a list \<Rightarrow> 'a list" where
  "first_seen xs = rev (remdups (rev xs))"

definition voted_identifiers :: "(nat \<times> ranked_method) list \<Rightarrow> string list" where
  "voted_identifiers occs =
     first_seen (filter (\<lambda>m. m \<noteq> []) (map (\<lambda>p. method_identifier (snd p)) occs))"

definition stats_of :: "(nat \<times> ranked_method) list \<Rightarrow> string \<Rightarrow> method_stats" where
  "stats_of occs m =
     \<lparr> count = length (filter (\<lambda>p. method_identifier (snd p) = m) occs),
       ranks = map fst (filter (\<lambda>p. method_identifier (snd p) = m) occs),
       justifications =
         filter (\<lambda>j. j \<noteq> [])
           (map (\<lambda>p. justification (snd p)) (filter (\<lambda>p. method_identifier (snd p) = m) occs)) \<rparr>"

text \<open>
  The vote in the words of the specification: the count of an identifier is the number of
  rounds in which it appears, its average rank the mean of its 1-based positions in those
  rounds, its justification the first of the shortest non-empty ones; the identifiers are
  sorted by \<open>(-count, avg_rank)\<close>, those with equal keys staying in the order of their first
  appearance, and the first \<open>K\<close> are kept.
\<close>

definition appears_in :: "string \<Rightarrow> history_entry \<Rightarrow> bool" where
  "appears_in m run = (m \<in> set (map method_identifier (entry_methods run)))"

definition rounds_with :: "history_entry list \<Rightarrow> string \<Rightarrow> history_entry list" where
  "rounds_with runs m = filter (appears_in m) runs"

definition consensus_count :: "history_entry list \<Rightarrow> string \<Rightarrow> nat" where
  "consensus_count runs m = length (rounds_with runs m)"

definition position_in :: "string \<Rightarrow> ranked_method list \<Rightarrow> nat" where
  "position_in m ms = Suc (length (takeWhile (\<lambda>item. method_identifier item \<noteq> m) ms))"

definition consensus_avg_rank :: "history_entry list \<Rightarrow> string \<Rightarrow> rat" where
  "consensus_avg_rank runs m =
     of_nat (sum_list (map (\<lambda>run. position_in m (entry_methods run)) (rounds_with runs m)))
       / of_nat (consensus_count runs m)"

definition justification_in :: "string \<Rightarrow> ranked_method list \<Rightarrow> string" where
  "justification_in m ms =
     (case find (\<lambda>item. method_identifier item = m) ms of
        None \<Rightarrow> [] | Some item \<Rightarrow> justification item)"

definition consensus_justification :: "history_entry list \<Rightarrow> string \<Rightarrow> string" where
  "consensus_justification runs m =
     shortest (filter (\<lambda>j. j \<noteq> [])
       (map (\<lambda>run. justification_in m (entry_methods run)) (rounds_with runs m)))"

definition consensus_identifiers :: "history_entry list \<Rightarrow> string list" where
  "consensus_identifiers runs =
     first_seen (filter (\<lambda>m. m \<noteq> [])
       (concat (map (\<lambda>run. map method_identifier (entry_methods run)) runs)))"

definition consensus_ranking :: "history_entry list \<Rightarrow> int \<Rightarrow> ranked_method list" where
  "consensus_ranking runs K =
     map (\<lambda>m. \<lparr> method_identifier = m, justification = consensus_justification runs m \<rparr>)
       (take (nat K)
         (sort_key (\<lambda>m. (- int (consensus_count runs m), consensus_avg_rank runs m))
           (consensus_identifiers runs)))"

text \<open>Among the strings of a list, only one has the least length.\<close>

definition unique_shortest :: "string list \<Rightarrow> bool" where
  "unique_shortest js =
     (\<forall>a\<in>set js. \<forall>b\<in>set js.
        (\<forall>c\<in>set js. length a \<le> length c) \<and> (\<forall>c\<in>set js. length b \<le> length c) \<longrightarrow> a = b)"

text \<open>
  Example rounds: the voting scenario of the specification, the same rounds in another
  order, a round that names an identifier twice, and two rounds whose identifiers tie.
\<close>

definition cand :: "string \<Rightarrow> string \<Rightarrow> ranked_method" where
  "cand m j = \<lparr> method_identifier = m, justification = j \<rparr>"

definition voting_rounds :: "history_entry list" where
  "voting_rounds =
     [Run 1 [cand ''A'' ''long reason'', cand ''B'' ''b''],
      Run 2 [cand ''B'' ''bb'', cand ''A'' ''aa''],
      Run 3 [cand ''A'' ''a'']]"

definition voting_rounds_reordered :: "history_entry list" where
  "voting_rounds_reordered =
     [Run 3 [cand ''A'' ''a''],
      Run 1 [cand ''A'' ''long reason'', cand ''B'' ''b''],
      Run 2 [cand ''B'' ''bb'', cand ''A'' ''aa'']]"

definition repeated_round :: "history_entry list" where
  "repeated_round = [Run 1 [cand ''B'' '''', cand ''A'' '''', cand ''A'' '''']]"

definition tied_rounds :: "history_entry list" where
  "tied_rounds = [Run 1 [cand ''A'' ''''], Run 2 [cand ''B'' '''']]"

section \<open>Evaluation report (\<^verbatim>\<open>generate_evaluation_report\<close>)\<close>

text \<open>
  A per-bug result keeps the metrics of \<^verbatim>\<open>evaluate_bug\<close> together with the two keys the
  report adds to them. \<open>project_results\<close> is a dictionary in insertion order, read like a
  \<^verbatim>\<open>defaultdict(list)\<close>. The report is built as its list of lines. How Python prints a
  float with \<^verbatim>\<open>:.4f\<close> is the parameter \<open>fmt4\<close>. The ground truth maps a project to a
  map from bug ids to truth sets; a stored result is the list under its \<^verbatim>\<open>top_k\<close>.
\<close>

record bug_result =
  project :: string
  bug_id :: int
  metrics :: eval_metrics

record totals =
  total_bugs :: int
  total_top1 :: int
  total_top3 :: int
  total_top5 :: int
  total_precision :: rat
  total_recall :: rat
  total_f1 :: rat
  total_accuracy :: rat

definition lookup_truth :: "(string \<Rightarrow> (int \<Rightarrow> string set option) option) \<Rightarrow> string \<Rightarrow> int \<Rightarrow> string set" where
  "lookup_truth ground_truth p b =
     (case ground_truth p of
        None \<Rightarrow> {}
      | Some bugs \<Rightarrow> (case bugs b of None \<Rightarrow> {} | Some actual \<Rightarrow> actual))"

definition bugs_of :: "(string \<times> bug_result list) list \<Rightarrow> string \<Rightarrow> bug_result list" where
  "bugs_of project_results p = (case map_of project_results p of None \<Rightarrow> [] | Some bugs \<Rightarrow> bugs)"

text \<open>The body of \<^verbatim>\<open>for project, bug_id, result_data in results\<close>.\<close>

definition add_result ::
  "(string \<Rightarrow> (int \<Rightarrow> string set option) option) \<Rightarrow> int \<Rightarrow>
   string \<times> int \<times> ranked_method list \<Rightarrow>
   (string \<times> bug_result list) list \<Rightarrow> (string \<times> bug_result list) list" where
  "add_result ground_truth k res project_results =
     (case res of (p, b, top_k) \<Rightarrow>
        (let actual = lookup_truth ground_truth p b
         in if actual = {} then project_results
            else
              (let predicted = map method_identifier top_k;
                   m = evaluate_bug predicted actual k
               in AList.update p
                    (bugs_of project_results p @ [\<lparr> project = p, bug_id = b, metrics = m \<rparr>])
                    project_results)))"

definition group_results ::
  "(string \<Rightarrow> (int \<Rightarrow> string set option) option) \<Rightarrow> int \<Rightarrow>
   (string \<times> int \<times> ranked_method list) list \<Rightarrow> (string \<times> bug_result list) list" where
  "group_results ground_truth k results = fold (add_result ground_truth k) results []"

text \<open>
  The body of \<^verbatim>\<open>for project in sorted(project_results.keys())\<close>: the lines and the running
  totals are passed through.
\<close>

definition project_block ::
  "(rat \<Rightarrow> string) \<Rightarrow> (string \<times> bug_result list) list \<Rightarrow> string \<Rightarrow>
   string list \<times> totals \<Rightarrow> string list \<times> totals" where
  "project_block fmt4 project_results p st =
     (case st of (lines, t) \<Rightarrow>
        (let bugs = bugs_of project_results p;
             n_bugs = int (length bugs)
         in if n_bugs = 0 then (lines, t)
            else
              (let top1 = int (length (filter (\<lambda>b. top_1 (metrics b)) bugs));
                   top3 = int (length (filter (\<lambda>b. top_3 (metrics b)) bugs));
                   top5 = int (length (filter (\<lambda>b. top_5 (metrics b)) bugs));
                   mean_prec = sum_list (map (\<lambda>b. precision (metrics b)) bugs) / of_int n_bugs;
                   mean_rec = sum_list (map (\<lambda>b. recall (metrics b)) bugs) / of_int n_bugs;
                   mean_f1 = sum_list (map (\<lambda>b. f1 (metrics b)) bugs) / of_int n_bugs;
                   mean_acc = sum_list (map (\<lambda>b. accuracy (metrics b)) bugs) / of_int n_bugs
               in (lines @
                   [''Project: '' @ lower p @ '' ('' @ str_int n_bugs @ '' bugs analyzed)'',
                    ''  Top-1 Hits: '' @ str_int top1,
                    ''  Top-3 Hits: '' @ str_int top3,
                    ''  Top-5 Hits: '' @ str_int top5,
                    ''  Mean Precision: '' @ fmt4 mean_prec,
                    ''  Mean Recall:    '' @ fmt4 mean_rec,
                    ''  Mean F1 Score:  '' @ fmt4 mean_f1,
                    ''  Mean Accuracy:  '' @ fmt4 mean_acc,
                    ''''],
                   \<lparr> total_bugs = total_bugs t + n_bugs,
                     total_top1 = total_top1 t + top1,
                     total_top3 = total_top3 t + top3,
                     total_top5 = total_top5 t + top5,
                     total_precision = total_precision t + mean_prec * of_int n_bugs,
                     total_recall = total_recall t + mean_rec * of_int n_bugs,
                     total_f1 = total_f1 t + mean_f1 * of_int n_bugs,
                     total_accuracy = total_accuracy t + mean_acc * of_int n_bugs \<rparr>))))"

text \<open>The lines appended after the loop.\<close>

definition global_lines :: "(rat \<Rightarrow> string) \<Rightarrow> string \<Rightarrow> totals \<Rightarrow> string list" where
  "global_lines fmt4 benchmark_type t =
     [if benchmark_type = ''python'' then ''GLOBAL AVERAGES'' else ''OVERALL TOTALS'',
      replicate 15 CHR ''-''] @
     (if benchmark_type = ''python''
      then [''Total Bugs Processed: '' @ str_int (total_bugs t)] @
           (if total_bugs t > 0
            then [''Average F1 Score:     '' @ fmt4 (total_f1 t / of_int (total_bugs t)),
                  ''Average Accuracy:     '' @ fmt4 (total_accuracy t / of_int (total_bugs t))]
            else [])
      else [''Total Bugs Analyzed: '' @ str_int (total_bugs t),
            ''Total Top-1: '' @ str_int (total_top1 t),
            ''Total Top-3: '' @ str_int (total_top3 t),
            ''Total Top-5: '' @ str_int (total_top5 t)] @
           (if total_bugs t > 0
            then [''Average Precision: '' @ fmt4 (total_precision t / of_int (total_bugs t)),
                  ''Average Recall:    '' @ fmt4 (total_recall t / of_int (total_bugs t)),
                  ''Average F1:        '' @ fmt4 (total_f1 t / of_int (total_bugs t)),
                  ''Average Accuracy:  '' @ fmt4 (total_accuracy t / of_int (total_bugs t))]
            else []))"

definition project_loop ::
  "(rat \<Rightarrow> string) \<Rightarrow> (string \<times> bug_result list) list \<Rightarrow> string list \<Rightarrow> string list \<times> totals" where
  "project_loop fmt4 project_results lines =
     fold (project_block fmt4 project_results) (sort (map fst project_results))
       (lines,
        \<lparr> total_bugs = 0, total_top1 = 0, total_top3 = 0, total_top5 = 0,
          total_precision = 0, total_recall = 0, total_f1 = 0, total_accuracy = 0 \<rparr>)"

definition header_lines :: "int \<Rightarrow> string \<Rightarrow> string list" where
  "header_lines k benchmark_type =
     [if benchmark_type = ''python''
      then ''BugsInPy Classification Metrics (K='' @ str_int k @ '')''
      else ''Fault Localization Evaluation (K='' @ str_int k @ '')'',
      replicate 50 CHR ''='', '''']"

text \<open>\<^verbatim>\<open>"\n".join(lines)\<close>\<close>

definition join_lines :: "string list \<Rightarrow> string" where
  "join_lines ls = (case ls of [] \<Rightarrow> [] | l # rest \<Rightarrow> fold (\<lambda>x acc. acc @ [CHR 0x0A] @ x) rest l)"

definition generate_evaluation_report ::
  "(rat \<Rightarrow> string) \<Rightarrow> (string \<times> int \<times> ranked_method list) list \<Rightarrow>
   (string \<Rightarrow> (int \<Rightarrow> string set option) option) \<Rightarrow> int \<Rightarrow> string \<Rightarrow> string" where
  "generate_evaluation_report fmt4 results ground_truth k benchmark_type =
     (let project_results = group_results ground_truth k results;
          lines = header_lines k benchmark_type;
          st = project_loop fmt4 project_results lines
      in join_lines (fst st @ global_lines fmt4 benchmark_type (snd st)))"

section \<open>The global summary, as specified\<close>

text \<open>
  The mean of a metric over the bugs of one project; the number of scored bugs; the average
  of the project means weighted by the projects' bug counts; the hit counts; and the lines
  of the global summary written with them.
\<close>

definition project_mean :: "(eval_metrics \<Rightarrow> rat) \<Rightarrow> bug_result list \<Rightarrow> rat" where
  "project_mean f bugs = sum_list (map (\<lambda>b. f (metrics b)) bugs) / of_nat (length bugs)"

definition corpus_size :: "(string \<times> bug_result list) list \<Rightarrow> nat" where
  "corpus_size groups = sum_list (map (\<lambda>g. length (snd g)) groups)"

definition mean_of_means :: "(eval_metrics \<Rightarrow> rat) \<Rightarrow> (string \<times> bug_result list) list \<Rightarrow> rat" where
  "mean_of_means f groups =
     sum_list (map (\<lambda>g. project_mean f (snd g) * of_nat (length (snd g))) groups)
       / of_nat (corpus_size groups)"

definition hits :: "(eval_metrics \<Rightarrow> bool) \<Rightarrow> (string \<times> bug_result list) list \<Rightarrow> nat" where
  "hits f groups = sum_list (map (\<lambda>g. length (filter (\<lambda>b. f (metrics b)) (snd g))) groups)"

definition mean_of_means_lines ::
  "(rat \<Rightarrow> string) \<Rightarrow> string \<Rightarrow> (string \<times> bug_result list) list \<Rightarrow> string list" where
  "mean_of_means_lines fmt4 benchmark_type groups =
     [if benchmark_type = ''python'' then ''GLOBAL AVERAGES'' else ''OVERALL TOTALS'',
      replicate 15 CHR ''-''] @
     (if benchmark_type = ''python''
      then [''Total Bugs Processed: '' @ str_int (int (corpus_size groups))] @
           (if corpus_size groups > 0
            then [''Average F1 Score:     '' @ fmt4 (mean_of_means f1 groups),
                  ''Average Accuracy:     '' @ fmt4 (mean_of_means accuracy groups)]
            else [])
      else [''Total Bugs Analyzed: '' @ str_int (int (corpus_size groups)),
            ''Total Top-1: '' @ str_int (int (hits top_1 groups)),
            ''Total Top-3: '' @ str_int (int (hits top_3 groups)),
            ''Total Top-5: '' @ str_int (int (hits top_5 groups))] @
           (if corpus_size groups > 0
            then [''Average Precision: '' @ fmt4 (mean_of_means precision groups),
                  ''Average Recall:    '' @ fmt4 (mean_of_means recall groups),
                  ''Average F1:        '' @ fmt4 (mean_of_means f1 groups),
                  ''Average Accuracy:  '' @ fmt4 (mean_of_means accuracy groups)]
            else []))"

text \<open>The totals after one project, without the lines.\<close>

definition step_totals :: "(string \<times> bug_result list) list \<Rightarrow> string \<Rightarrow> totals \<Rightarrow> totals" where
  "step_totals pr p t =
     \<lparr> total_bugs = total_bugs t + int (length (bugs_of pr p)),
       total_top1 = total_top1 t + int (length (filter (\<lambda>b. top_1 (metrics b)) (bugs_of pr p))),
       total_top3 = total_top3 t + int (length (filter (\<lambda>b. top_3 (metrics b)) (bugs_of pr p))),
       total_top5 = total_top5 t + int (length (filter (\<lambda>b. top_5 (metrics b)) (bugs_of pr p))),
       total_precision = total_precision t
          + project_mean precision (bugs_of pr p) * of_nat (length (bugs_of pr p)),
       total_recall = total_recall t
          + project_mean recall (bugs_of pr p) * of_nat (length (bugs_of pr p)),
       total_f1 = total_f1 t + project_mean f1 (bugs_of pr p) * of_nat (length (bugs_of pr p)),
       total_accuracy = total_accuracy t
          + project_mean accuracy (bugs_of pr p) * of_nat (length (bugs_of pr p)) \<rparr>"

text \<open>
  Precision recomputed from the raw counts pooled over all scored bugs, for comparison:
  \<open>tp\<close> and \<open>fp\<close> of one bug as \<^verbatim>\<open>evaluate_bug\<close> counts them.
\<close>

definition confusion :: "string list \<Rightarrow> string set \<Rightarrow> int \<Rightarrow> int \<times> int" where
  "confusion predicted actual k =
     (let pred_set = set (map normalize_method (py_prefix k predicted));
          actual_norm = normalize_method ` actual
      in (int (card (pred_set \<inter> actual_norm)), int (card (pred_set - actual_norm))))"

definition pooled_precision ::
  "(string \<Rightarrow> (int \<Rightarrow> string set option) option) \<Rightarrow> int \<Rightarrow>
   (string \<times> int \<times> ranked_method list) list \<Rightarrow> rat" where
  "pooled_precision ground_truth k results =
     (let scored = filter (\<lambda>(p, b, top_k). lookup_truth ground_truth p b \<noteq> {}) results;
          counts = map (\<lambda>(p, b, top_k).
                     confusion (map method_identifier top_k) (lookup_truth ground_truth p b) k) scored;
          tp = sum_list (map fst counts);
          fp = sum_list (map snd counts)
      in of_int tp / of_int (tp + fp))"

text \<open>
  An example corpus: two scored bugs in one project, one in another, one result without
  ground truth; and a formatter that prints a rational as a fraction.
\<close>

definition example_truth :: "string \<Rightarrow> (int \<Rightarrow> string set option) option" where
  "example_truth p =
     (if p = ''alpha''
      then Some (\<lambda>b. if b = 1 then Some {''a''} else if b = 2 then Some {''x''} else None)
      else if p = ''beta'' then Some (\<lambda>b. if b = 1 then Some {''b''} else None)
      else None)"

definition example_results :: "(string \<times> int \<times> ranked_method list) list" where
  "example_results =
     [(''beta'', 1, [cand ''b'' '''', cand ''c'' '''', cand ''d'' '''']),
      (''alpha'', 1, [cand ''a'' '''']),
      (''alpha'', 2, [cand ''x'' '''', cand ''y'' '''']),
      (''gamma'', 7, [cand ''z'' ''''])]"

definition show_rat :: "rat \<Rightarrow> string" where
  "show_rat q = str_int (fst (quotient_of q)) @ ''/'' @ str_int (snd (quotient_of q))"

section \<open>Evaluating the string functions\<close>

lemmas normalize_eval =
  normalize_method_def strip_def is_space_def apply_sep_def sublist_code
  split_first_def lower_def lower_char_def

section \<open>Empty-prediction scoring\<close>

text \<open>
  C4, as the specification states it: scoring the empty prediction against the truth set
  \<open>{"a"}\<close> with \<open>k = 5\<close> gives accuracy 0. It does not: \<open>tn = max(0, 5 - 0 - 0) = 5\<close>, so
  the accuracy is \<open>(0 + 5) / 5 = 1\<close>.
\<close>

theorem evaluate_bug_empty_accuracy_not_zero:
  "accuracy (evaluate_bug [] {''a''} 5) \<noteq> 0"
  by (simp add: evaluate_bug_def py_prefix_def normalize_eval)

text \<open>
  C4, amended: scoring the empty prediction against the truth set \<open>{"a"}\<close> with \<open>k = 5\<close>
  returns all three hit flags false, precision, recall and f1 equal to 0, and accuracy
  equal to 1.
\<close>

theorem evaluate_bug_empty_prediction:
  "evaluate_bug [] {''a''} 5 =
     \<lparr> top_1 = False, top_3 = False, top_5 = False,
       precision = 0, recall = 0, f1 = 0, accuracy = 1 \<rparr>"
  by (simp add: evaluate_bug_def py_prefix_def normalize_eval)

section \<open>Facts about the string functions\<close>

lemma sublist_single: "sublist [c] s \<longleftrightarrow> c \<in> set s"
  by (induction s) (auto simp: sublist_Cons_right)

lemma not_sublist_rsplit_last: "sep \<noteq> [] \<Longrightarrow> \<not> sublist sep (rsplit_last sep s)"
proof (induction s)
  case Nil
  then show ?case by simp
next
  case (Cons c cs)
  show ?case
  proof (cases "sublist sep cs")
    case True
    with Cons show ?thesis by simp
  next
    case False
    show ?thesis
    proof (cases "prefix sep (c # cs)")
      case True
      from Cons.prems obtain n where n: "length sep = Suc n" by (cases sep) auto
      have "sublist (drop n cs) cs" by simp
      with False have "\<not> sublist sep (drop n cs)"
        using sublist_order.order_trans by blast
      with False True n show ?thesis by simp
    next
      case np: False
      with False show ?thesis by (simp add: sublist_Cons_right)
    qed
  qed
qed

lemma suffix_rsplit_last: "suffix (rsplit_last sep s) s"
proof (induction s)
  case Nil
  then show ?case by simp
next
  case (Cons c cs)
  have "suffix (drop (length sep) (c # cs)) (c # cs)" by (rule suffix_drop)
  with Cons show ?case by (simp add: suffix_Cons)
qed

lemma sublist_apply_sep: "sublist (apply_sep sep s) s"
  by (simp add: apply_sep_def suffix_rsplit_last)

lemma not_sublist_apply_sep: "sep \<noteq> [] \<Longrightarrow> \<not> sublist sep (apply_sep sep s)"
  by (simp add: apply_sep_def not_sublist_rsplit_last)

lemma sublist_strip: "sublist (strip s) s"
proof -
  have "sublist (rev (dropWhile is_space (rev (dropWhile is_space s)))) (dropWhile is_space s)"
    by (simp add: sublist_rev_left)
  then show ?thesis
    unfolding strip_def using sublist_dropWhile sublist_order.order_trans by blast
qed

lemma lower_char_hash [simp]: "lower_char c = CHR ''#'' \<longleftrightarrow> c = CHR ''#''"
  by (cases c) (auto simp: lower_char_def Let_def)
lemma lower_char_dot [simp]: "lower_char c = CHR ''.'' \<longleftrightarrow> c = CHR ''.''"
  by (cases c) (auto simp: lower_char_def Let_def)
lemma lower_char_colon [simp]: "lower_char c = CHR '':'' \<longleftrightarrow> c = CHR '':''"
  by (cases c) (auto simp: lower_char_def Let_def)
lemma lower_char_paren [simp]: "lower_char c = CHR ''('' \<longleftrightarrow> c = CHR ''(''"
  by (cases c) (auto simp: lower_char_def Let_def)
lemma lower_char_hash' [simp]: "CHR ''#'' = lower_char c \<longleftrightarrow> c = CHR ''#''"
  using lower_char_hash [of c] by (auto simp del: lower_char_hash)
lemma lower_char_dot' [simp]: "CHR ''.'' = lower_char c \<longleftrightarrow> c = CHR ''.''"
  using lower_char_dot [of c] by (auto simp del: lower_char_dot)
lemma lower_char_colon' [simp]: "CHR '':'' = lower_char c \<longleftrightarrow> c = CHR '':''"
  using lower_char_colon [of c] by (auto simp del: lower_char_colon)
lemma lower_char_paren' [simp]: "CHR ''('' = lower_char c \<longleftrightarrow> c = CHR ''(''"
  using lower_char_paren [of c] by (auto simp del: lower_char_paren)
lemma is_space_lower_char [simp]: "is_space (lower_char c) = is_space c"
  by (cases c) (auto simp: lower_char_def is_space_def Let_def)
lemma lower_char_idem [simp]: "lower_char (lower_char c) = lower_char c"
  by (cases c) (auto simp: lower_char_def Let_def)

lemma lower_idem: "lower (lower s) = lower s"
  by (simp add: lower_def)

lemma strip_lower: "strip (lower s) = lower (strip s)"
  by (simp add: strip_def lower_def dropWhile_map rev_map comp_def)

lemma prefix_colons_lower:
  "prefix ''::'' (lower_char a # map lower_char s) \<longleftrightarrow> prefix ''::'' (a # s)"
  by (cases s) auto

lemma sublist_colons_lower: "sublist ''::'' (lower s) \<longleftrightarrow> sublist ''::'' s"
  unfolding lower_def
proof (induction s)
  case Nil
  show ?case by simp
next
  case (Cons a s)
  have "sublist ''::'' (map lower_char (a # s)) \<longleftrightarrow>
        prefix ''::'' (lower_char a # map lower_char s) \<or> sublist ''::'' (map lower_char s)"
    by (simp only: list.map sublist_Cons_right)
  also have "\<dots> \<longleftrightarrow> prefix ''::'' (a # s) \<or> sublist ''::'' s"
    by (simp only: prefix_colons_lower Cons.IH)
  also have "\<dots> \<longleftrightarrow> sublist ''::'' (a # s)"
    by (simp only: sublist_Cons_right)
  finally show ?case .
qed

lemma hash_in_lower: "CHR ''#'' \<in> set (lower s) \<longleftrightarrow> CHR ''#'' \<in> set s"
  by (induction s) (auto simp: lower_def)
lemma dot_in_lower: "CHR ''.'' \<in> set (lower s) \<longleftrightarrow> CHR ''.'' \<in> set s"
  by (induction s) (auto simp: lower_def)
lemma paren_in_lower: "CHR ''('' \<in> set (lower s) \<longleftrightarrow> CHR ''('' \<in> set s"
  by (induction s) (auto simp: lower_def)

lemma normalize_method_clean:
  assumes "CHR ''#'' \<notin> set y" "\<not> sublist ''::'' y" "CHR ''.'' \<notin> set y" "CHR ''('' \<notin> set y"
  shows "normalize_method y = lower (strip y)"
proof -
  have sub: "sublist (strip y) y" by (rule sublist_strip)
  then have s: "set (strip y) \<subseteq> set y" by (rule set_mono_sublist)
  have a: "\<not> sublist ''#'' (strip y)" using assms(1) s by (auto simp: sublist_single)
  have b: "\<not> sublist ''::'' (strip y)" using assms(2) sub sublist_order.order_trans by blast
  have c: "\<not> sublist ''.'' (strip y)" using assms(3) s by (auto simp: sublist_single)
  have d: "CHR ''('' \<notin> set (strip y)" using assms(4) s by auto
  show ?thesis using a b c d by (simp add: normalize_method_def apply_sep_def)
qed

lemma occurrences_Cons:
  "sep \<noteq> [] \<Longrightarrow> occurrences sep (c # cs) =
     (if prefix sep (c # cs) then [0] else []) @ map Suc (occurrences sep cs)"
proof -
  assume "sep \<noteq> []"
  have up: "[0..<length (c # cs)] = 0 # map Suc [0..<length cs]"
    by (simp add: upt_conv_Cons map_Suc_upt del: upt_Suc)
  have p0: "take (length sep) (c # cs) = sep \<longleftrightarrow> prefix sep (c # cs)"
    by (metis append_eq_conv_conj prefix_def take_is_prefix)
  show ?thesis
    unfolding occurrences_def up using p0 by (simp add: filter_map comp_def)
qed

lemma occurrences_empty_iff: "sep \<noteq> [] \<Longrightarrow> occurrences sep s = [] \<longleftrightarrow> \<not> sublist sep s"
proof (induction s)
  case Nil
  then show ?case by (simp add: occurrences_def)
next
  case (Cons c cs)
  then show ?case by (simp add: occurrences_Cons sublist_Cons_right)
qed

lemma rsplit_last_after:
  "sep \<noteq> [] \<Longrightarrow> apply_sep sep s = after_last_occurrence sep s"
proof (induction s)
  case Nil
  then show ?case by (simp add: apply_sep_def after_last_occurrence_def occurrences_def)
next
  case (Cons c cs)
  note ne = Cons.prems
  show ?case
  proof (cases "sublist sep cs")
    case True
    then have o: "occurrences sep cs \<noteq> []" using ne by (simp add: occurrences_empty_iff)
    then have l: "last (occurrences sep (c # cs)) = Suc (last (occurrences sep cs))"
      using ne by (simp add: occurrences_Cons last_map)
    from True o l Cons.IH[OF ne] ne show ?thesis
      by (simp add: apply_sep_def after_last_occurrence_def occurrences_Cons sublist_Cons_right)
  next
    case False
    then have o: "occurrences sep cs = []" using ne by (simp add: occurrences_empty_iff)
    show ?thesis using False o ne
      by (simp add: apply_sep_def after_last_occurrence_def occurrences_Cons sublist_Cons_right)
  qed
qed

lemma before_first_paren_takeWhile:
  "before_first_paren s = takeWhile (\<lambda>c. c \<noteq> CHR ''('') s"
  unfolding before_first_paren_def by (rule takeWhile_eq_take [symmetric])

lemma before_first_paren_eq:
  "(if CHR ''('' \<in> set s then split_first CHR ''('' s else s) = before_first_paren s"
proof (cases "CHR ''('' \<in> set s")
  case True
  then show ?thesis
    by (simp only: before_first_paren_takeWhile split_first_def if_True)
next
  case False
  then have "\<forall>c\<in>set s. c \<noteq> CHR ''(''" by blast
  then have "takeWhile (\<lambda>c. c \<noteq> CHR ''('') s = s"
    by (simp only: takeWhile_eq_all_conv)
  with False show ?thesis
    by (simp only: before_first_paren_takeWhile if_False)
qed

section \<open>Normalization applies every separator class\<close>

text \<open>
  C5, as the specification states it: after the first separator class found, the remaining
  classes are not applied. On \<open>Outer#Inner.run\<close> that reading keeps \<open>inner.run\<close>; the
  code goes on to the dot and returns \<open>run\<close>.
\<close>

theorem normalize_method_not_first_found:
  "normalize_method ''Outer#Inner.run'' \<noteq> normalize_first_found ''Outer#Inner.run''"
  by code_simp

text \<open>
  C5, amended: for every identifier string, normalization trims white space, then for each
  of \<^verbatim>\<open>#\<close>, \<^verbatim>\<open>::\<close>, \<^verbatim>\<open>.\<close> in that order, if the separator occurs in the current
  string, keeps the text after its last occurrence (all three classes are applied, each to
  the result of the one before), then removes everything from the first opening
  parenthesis onward and lower-cases the result.
\<close>

theorem normalize_method_sequential:
  "normalize_method x = normalize_sequential x"
  by (simp add: normalize_method_def normalize_sequential_def rsplit_last_after
      before_first_paren_eq)

theorem normalize_method_sequential_witness:
  "normalize_method '' pkg.Cls#Meth(int) '' = ''meth''
   \<and> normalize_sequential '' pkg.Cls#Meth(int) '' = ''meth''"
  using normalize_method_sequential [of "'' pkg.Cls#Meth(int) ''"] by code_simp

section \<open>Normalizing twice\<close>

text \<open>
  C9, as the specification states it: normalization is idempotent. Cutting at a separator
  can expose white space that the first trim did not see: \<open>Foo.bar (int)\<close> normalizes to
  \<open>bar\<close> followed by a blank, and that to \<open>bar\<close>.
\<close>

theorem normalize_method_not_idempotent:
  "normalize_method (normalize_method ''Foo.bar (int)'') \<noteq> normalize_method ''Foo.bar (int)''"
  by (simp add: normalize_eval)

text \<open>
  C9, amended: for every identifier string \<open>x\<close>, normalizing a normalized identifier only
  trims it: \<open>normalize(normalize(x)) = strip(normalize(x))\<close>. So normalization is idempotent
  on exactly the identifiers whose normalized form has no leading or trailing white space.
\<close>

theorem normalize_method_twice: "normalize_method (normalize_method x) = strip (normalize_method x)"
proof -
  define w where "w = apply_sep ''.'' (apply_sep ''::'' (apply_sep ''#'' (strip x)))"
  define z where "z = (if CHR ''('' \<in> set w then split_first CHR ''('' w else w)"
  have nx: "normalize_method x = lower z"
    by (simp add: normalize_method_def w_def z_def)
  have w3: "\<not> sublist ''.'' w" unfolding w_def by (rule not_sublist_apply_sep) simp
  have w2: "\<not> sublist ''::'' w"
    unfolding w_def using not_sublist_apply_sep[of "''::''" "apply_sep ''#'' (strip x)"]
      sublist_apply_sep[of "''.''"] sublist_order.order_trans by blast
  have w1: "\<not> sublist ''#'' w"
    unfolding w_def using not_sublist_apply_sep[of "''#''" "strip x"]
      sublist_apply_sep[of "''.''"] sublist_apply_sep[of "''::''"] sublist_order.order_trans
    by (metis list.discI)
  have zw: "sublist z w" by (simp add: z_def split_first_def)
  then have sz: "set z \<subseteq> set w" by (rule set_mono_sublist)
  have z1: "CHR ''#'' \<notin> set z" using w1 sz by (auto simp: sublist_single)
  have z3: "CHR ''.'' \<notin> set z" using w3 sz by (auto simp: sublist_single)
  have z2: "\<not> sublist ''::'' z" using w2 zw sublist_order.order_trans by blast
  have z4: "CHR ''('' \<notin> set z"
    using set_takeWhileD[of "CHR ''(''" "\<lambda>c. c \<noteq> CHR ''(''" w]
    by (auto simp: z_def split_first_def)
  have "normalize_method (lower z) = lower (strip (lower z))"
    by (rule normalize_method_clean) (simp_all add: z1 z2 z3 z4 sublist_colons_lower hash_in_lower dot_in_lower paren_in_lower)
  also have "\<dots> = strip (lower z)" by (simp add: strip_lower lower_idem)
  finally show ?thesis by (simp add: nx)
qed

theorem normalize_method_twice_witness:
  "normalize_method ''Foo.bar (int)'' = ''bar ''
   \<and> normalize_method (normalize_method ''Foo.bar (int)'') = ''bar''"
  using normalize_method_twice [of "''Foo.bar (int)''"] by (simp add: normalize_eval)

section \<open>The response parser\<close>

lemma extract_item_step:
  "extract_item render item results =
     results @ (if accepted item then [entry_of render item] else [])"
  by (cases item) (simp_all add: extract_item_def accepted_def entry_of_def method_value_def Let_def)

lemma fold_extract_item:
  "fold (extract_item render) items results =
     results @ map (entry_of render) (filter accepted items)"
  by (induction items arbitrary: results) (simp_all add: extract_item_step)

text \<open>
  C7, as the specification states it: the parsed ranking has no two entries with the same
  method identifier. The parser has no such check: a response that names \<open>a\<close> twice is
  parsed to two entries for \<open>a\<close>.
\<close>

theorem extract_top_k_methods_keeps_duplicates:
  "\<not> distinct (map method_identifier (extract_top_k_methods (\<lambda>v. '''') dup_response))"
  by (simp add: dup_response_def extract_top_k_methods_def dict_get_def extract_item_def
      py_str_def strip_def is_space_def)

text \<open>
  C7, amended: for every parsed oracle response, the ranking produced by the parser has, in
  the order of the array under \<^verbatim>\<open>top_k\<close>, one entry for each element that is a record with
  a non-empty (truthy) \<^verbatim>\<open>method\<close>, or \<^verbatim>\<open>method_name\<close> as fallback; every other element is
  dropped silently. So its length is at most the length of that array; duplicates are
  kept, and the parser applies no bound \<open>K\<close>.
\<close>

theorem extract_top_k_methods_map_filter:
  "extract_top_k_methods render response =
     map (entry_of render) (filter accepted (top_k_array response))
   \<and> length (extract_top_k_methods render response) \<le> length (top_k_array response)"
proof -
  have e: "extract_top_k_methods render response =
     map (entry_of render) (filter accepted (top_k_array response))"
    by (simp add: extract_top_k_methods_def top_k_array_def fold_extract_item
        split: option.split json.split)
  show ?thesis unfolding e by simp
qed

theorem extract_top_k_methods_map_filter_witness:
  "extract_top_k_methods (\<lambda>v. '''') dup_response =
     [\<lparr>method_identifier = ''a'', justification = ''''\<rparr>,
      \<lparr>method_identifier = ''a'', justification = ''''\<rparr>]"
  using extract_top_k_methods_map_filter [of "\<lambda>v. ''''" dup_response]
  by (simp add: dup_response_def top_k_array_def dict_get_def accepted_def method_value_def
      entry_of_def py_str_def strip_def is_space_def)

section \<open>Self-consistency always reports convergence\<close>

lemma self_consistency_loop_all_failed:
  "\<forall>i\<in>set idxs. call_failed (client i) \<Longrightarrow>
   fst (self_consistency_loop render client idxs all_runs latency errs) = all_runs"
  by (induction idxs arbitrary: latency errs) (simp_all add: Let_def)

lemma aggregate_results_Nil: "aggregate_results [] top_k = []"
  by (simp add: aggregate_results_def collect_stats_def py_prefix_def)

text \<open>
  C10: for every client, number of runs and \<open>top_k\<close>, the self-consistency strategy returns
  a result with \<open>converged = True\<close> and \<open>iterations_used = num_runs\<close>; when every run
  fails, so that the final ranking is empty, the flag is still true. No stability check takes
  part in it.
\<close>

theorem run_self_consistency_converged:
  "converged (run_self_consistency render client num_runs top_k)
   \<and> iterations_used (run_self_consistency render client num_runs top_k) = num_runs
   \<and> ((\<forall>i\<in>{1..num_runs}. call_failed (client i)) \<longrightarrow>
        final_ranking (run_self_consistency render client num_runs top_k) = [])"
proof -
  obtain rs l e where loop: "self_consistency_loop render client [1..num_runs] [] 0 [] = (rs, l, e)"
    by (cases "self_consistency_loop render client [1..num_runs] [] 0 []") auto
  have "rs = []" if "\<forall>i\<in>{1..num_runs}. call_failed (client i)"
    using self_consistency_loop_all_failed [of "[1..num_runs]" client render "[]" 0 "[]"] that loop
    by simp
  then show ?thesis
    by (auto simp: run_self_consistency_def loop aggregate_results_Nil)
qed

theorem run_self_consistency_converged_witness:
  "converged (run_self_consistency (\<lambda>v. '''') failing_client 3 10)
   \<and> iterations_used (run_self_consistency (\<lambda>v. '''') failing_client 3 10) = 3
   \<and> final_ranking (run_self_consistency (\<lambda>v. '''') failing_client 3 10) = []"
proof -
  have h: "\<forall>i\<in>{1..3}. call_failed (failing_client i)"
    by (simp add: call_failed_def failing_client_def)
  show ?thesis
    using h run_self_consistency_converged [of "\<lambda>v. ''''" failing_client 3 10] by simp
qed

section \<open>The iterative strategy: what a run returns\<close>

lemma upto_snoc: "1 \<le> i \<Longrightarrow> [1..i] = [1..i - 1] @ [i]"
  using upto_rec2 [of 1 i] by simp

lemma state_before_Suc:
  "1 \<le> i \<Longrightarrow> state_before render client (i + 1) = advance render client i (state_before render client i)"
  by (simp add: state_before_def upto_snoc [of i])

lemma state_before_failed:
  assumes "1 \<le> i" "\<not> successful render client i"
  shows "state_before render client (i + 1) = state_before render client i"
  using assms
  by (cases "state_before render client i")
     (simp add: state_before_Suc advance_def successful_def response_at_def Let_def)

lemma state_before_success:
  assumes "1 \<le> i" "successful render client i"
  shows "state_before render client (i + 1) =
     (methods_to_json (ranking_at render client i), Some (names_at render client i))"
  using assms
  by (cases "state_before render client i")
     (simp add: state_before_Suc advance_def successful_def response_at_def ranking_at_def
        names_at_def Let_def)

lemma prev_methods_char:
  "1 \<le> i \<Longrightarrow> snd (state_before render client i) = Some ns \<longleftrightarrow>
     (\<exists>j\<in>{1..<i}. successful render client j
         \<and> (\<forall>l\<in>{j<..<i}. \<not> successful render client l)
         \<and> names_at render client j = ns)"
proof (induction i rule: int_ge_induct)
  case base
  show ?case by (simp add: state_before_def)
next
  case (step i)
  show ?case
  proof (cases "successful render client i")
    case True
    have "snd (state_before render client (i + 1)) = Some ns \<longleftrightarrow> names_at render client i = ns"
      using state_before_success [OF step.hyps True] by simp
    also have "\<dots> \<longleftrightarrow> (\<exists>j\<in>{1..<i + 1}. successful render client j
         \<and> (\<forall>l\<in>{j<..<i + 1}. \<not> successful render client l)
         \<and> names_at render client j = ns)" (is "?L \<longleftrightarrow> ?R")
    proof
      assume ?L
      with True step.hyps show ?R by (intro bexI [of _ i]) auto
    next
      assume ?R
      then obtain j where j: "j \<in> {1..<i + 1}" "successful render client j"
        "\<forall>l\<in>{j<..<i + 1}. \<not> successful render client l" "names_at render client j = ns"
        by blast
      have "j = i"
      proof (rule ccontr)
        assume "j \<noteq> i"
        with j(1) have "i \<in> {j<..<i + 1}" by auto
        with j(3) True show False by blast
      qed
      with j(4) show ?L by simp
    qed
    finally show ?thesis .
  next
    case False
    have "snd (state_before render client (i + 1)) = Some ns \<longleftrightarrow>
          snd (state_before render client i) = Some ns"
      using state_before_failed [OF step.hyps False] by simp
    also have "\<dots> \<longleftrightarrow> (\<exists>j\<in>{1..<i}. successful render client j
         \<and> (\<forall>l\<in>{j<..<i}. \<not> successful render client l)
         \<and> names_at render client j = ns)"
      by (rule step.IH)
    also have "\<dots> \<longleftrightarrow> (\<exists>j\<in>{1..<i + 1}. successful render client j
         \<and> (\<forall>l\<in>{j<..<i + 1}. \<not> successful render client l)
         \<and> names_at render client j = ns)" (is "?L \<longleftrightarrow> ?R")
    proof
      assume ?L
      then obtain j where j: "j \<in> {1..<i}" "successful render client j"
        "\<forall>l\<in>{j<..<i}. \<not> successful render client l" "names_at render client j = ns"
        by blast
      have "\<forall>l\<in>{j<..<i + 1}. \<not> successful render client l"
      proof
        fix l assume "l \<in> {j<..<i + 1}"
        then have "l \<in> {j<..<i} \<or> l = i" by auto
        with j(3) False show "\<not> successful render client l" by blast
      qed
      with j show ?R by (intro bexI [of _ j]) auto
    next
      assume ?R
      then obtain j where j: "j \<in> {1..<i + 1}" "successful render client j"
        "\<forall>l\<in>{j<..<i + 1}. \<not> successful render client l" "names_at render client j = ns"
        by blast
      from j(1,2) False have "j \<noteq> i" by auto
      with j(1) have "j \<in> {1..<i}" by auto
      moreover from j(3) have "\<forall>l\<in>{j<..<i}. \<not> successful render client l" by auto
      ultimately show ?L using j(2,4) by blast
    qed
    finally show ?thesis .
  qed
qed

lemma converges_at_prev_methods:
  "1 \<le> i \<Longrightarrow> converges_at render client i \<longleftrightarrow>
     successful render client i \<and> snd (state_before render client i) = Some (names_at render client i)"
  by (simp add: converges_at_def prev_methods_char)

lemma history_upto_step:
  "1 \<le> i \<Longrightarrow> history_upto render client i =
     history_upto render client (i - 1) @
       (if successful render client i
        then [Iteration i (ranking_at render client i) (latency_seconds (response_at render client i))]
        else [])"
  by (simp add: history_upto_def upto_snoc [of i])

lemma errors_upto_step:
  "1 \<le> i \<Longrightarrow> errors_upto render client i =
     errors_upto render client (i - 1) @
       (if successful render client i then []
        else [''Iteration '' @ str_int i @ '': '' @ error_text (response_at render client i)])"
  by (simp add: errors_upto_def upto_snoc [of i])

lemma latency_upto_step:
  "1 \<le> i \<Longrightarrow> latency_upto render client i =
     latency_upto render client (i - 1) + latency_seconds (response_at render client i)"
  by (simp add: latency_upto_def upto_snoc [of i])

lemma zero_shot_loop_outcome:
  "1 \<le> i \<Longrightarrow> i \<le> max_iterations + 1 \<Longrightarrow>
   zero_shot_loop render client max_iterations [i..max_iterations]
     (fst (state_before render client i)) (snd (state_before render client i))
     (history_upto render client (i - 1)) (latency_upto render client (i - 1))
     (errors_upto render client (i - 1))
   = outcome render client max_iterations (find (converges_at render client) [i..max_iterations])"
proof (induction "nat (max_iterations + 1 - i)" arbitrary: i)
  case 0
  then have i: "i = max_iterations + 1" by simp
  then have e: "[i..max_iterations] = []" by simp
  show ?case unfolding e by (simp add: outcome_def i)
next
  case (Suc n)
  let ?rest = "[i + 1..max_iterations]"
  let ?r = "response_at render client i"
  let ?h = "history_upto render client (i - 1)"
  let ?l = "latency_upto render client (i - 1)"
  let ?e = "errors_upto render client (i - 1)"
  from Suc have le: "i \<le> max_iterations" by simp
  then have e: "[i..max_iterations] = i # ?rest" by (simp add: upto_rec1)
  have n: "n = nat (max_iterations + 1 - (i + 1))" using Suc.hyps(2) by simp
  have i1: "1 \<le> i + 1" "i + 1 \<le> max_iterations + 1" using Suc.prems le by simp_all
  have IH: "zero_shot_loop render client max_iterations ?rest
     (fst (state_before render client (i + 1))) (snd (state_before render client (i + 1)))
     (history_upto render client i) (latency_upto render client i) (errors_upto render client i)
     = outcome render client max_iterations (find (converges_at render client) ?rest)"
    using Suc.hyps(1) [OF n i1] by simp
  have r: "client i (fst (state_before render client i)) = ?r"
    by (simp add: response_at_def)
  note steps = history_upto_step [OF Suc.prems(1), of render client]
    errors_upto_step [OF Suc.prems(1), of render client]
    latency_upto_step [OF Suc.prems(1), of render client]
  show ?case
  proof (cases "successful render client i")
    case False
    then have nc: "\<not> converges_at render client i" by (simp add: converges_at_def)
    have f: "call_failed ?r" using False by (simp add: successful_def)
    have "zero_shot_loop render client max_iterations (i # ?rest)
        (fst (state_before render client i)) (snd (state_before render client i)) ?h ?l ?e
      = zero_shot_loop render client max_iterations ?rest
        (fst (state_before render client i)) (snd (state_before render client i)) ?h
        (?l + latency_seconds ?r) (?e @ [''Iteration '' @ str_int i @ '': '' @ error_text ?r])"
      using f by (simp add: r Let_def)
    also have "\<dots> = zero_shot_loop render client max_iterations ?rest
     (fst (state_before render client (i + 1))) (snd (state_before render client (i + 1)))
     (history_upto render client i) (latency_upto render client i) (errors_upto render client i)"
      using False by (simp add: steps state_before_failed [OF Suc.prems(1) False])
    also note IH
    also have "find (converges_at render client) ?rest = find (converges_at render client) (i # ?rest)"
      using nc by simp
    finally show ?thesis unfolding e .
  next
    case True
    then have f: "\<not> call_failed ?r" by (simp add: successful_def)
    have hi: "history_upto render client i =
        ?h @ [Iteration i (extract_top_k_methods render ?r) (latency_seconds ?r)]"
      using True by (simp add: steps ranking_at_def)
    have ei: "errors_upto render client i = ?e" using True by (simp add: steps)
    have li: "latency_upto render client i = ?l + latency_seconds ?r" by (simp add: steps)
    show ?thesis
    proof (cases "converges_at render client i")
      case c: True
      then have pm: "snd (state_before render client i) =
          Some (map method_identifier (extract_top_k_methods render ?r))"
        using converges_at_prev_methods [OF Suc.prems(1), of render client]
        by (simp add: names_at_def ranking_at_def)
      have "zero_shot_loop render client max_iterations (i # ?rest)
          (fst (state_before render client i)) (snd (state_before render client i)) ?h ?l ?e
        = outcome render client max_iterations (Some i)"
        using f by (simp add: r Let_def pm outcome_def hi ei li ranking_at_def)
      also have "Some i = find (converges_at render client) (i # ?rest)"
        using c by simp
      finally show ?thesis unfolding e .
    next
      case c: False
      then have pm: "snd (state_before render client i) \<noteq>
          Some (map method_identifier (extract_top_k_methods render ?r))"
        using converges_at_prev_methods [OF Suc.prems(1), of render client] True
        by (simp add: names_at_def ranking_at_def)
      then have pm': "\<not> (snd (state_before render client i) \<noteq> None \<and>
          Some (map method_identifier (extract_top_k_methods render ?r))
            = snd (state_before render client i))"
        by auto
      have sb: "state_before render client (i + 1) =
          (methods_to_json (extract_top_k_methods render ?r),
           Some (map method_identifier (extract_top_k_methods render ?r)))"
        using state_before_success [OF Suc.prems(1) True]
        by (simp add: names_at_def ranking_at_def)
      have "zero_shot_loop render client max_iterations (i # ?rest)
          (fst (state_before render client i)) (snd (state_before render client i)) ?h ?l ?e
        = zero_shot_loop render client max_iterations ?rest
          (methods_to_json (extract_top_k_methods render ?r))
          (Some (map method_identifier (extract_top_k_methods render ?r)))
          (?h @ [Iteration i (extract_top_k_methods render ?r) (latency_seconds ?r)])
          (?l + latency_seconds ?r) ?e"
        using f pm' by (simp only: zero_shot_loop.simps r Let_def if_False)
      also have "\<dots> = zero_shot_loop render client max_iterations ?rest
       (fst (state_before render client (i + 1))) (snd (state_before render client (i + 1)))
       (history_upto render client i) (latency_upto render client i) (errors_upto render client i)"
        by (simp only: sb fst_conv snd_conv hi ei li)
      also note IH
      also have "find (converges_at render client) ?rest = find (converges_at render client) (i # ?rest)"
        using c by simp
      finally show ?thesis unfolding e .
    qed
  qed
qed

lemma run_zero_shot_iterative_outcome:
  "run_zero_shot_iterative render client max_iterations =
     outcome render client max_iterations (find (converges_at render client) [1..max_iterations])"
proof (cases "0 \<le> max_iterations")
  case True
  then show ?thesis
    using zero_shot_loop_outcome [of 1 max_iterations render client]
    by (simp add: run_zero_shot_iterative_def state_before_def history_upto_def
        errors_upto_def latency_upto_def)
next
  case False
  then have e: "[1..max_iterations] = []" by simp
  have h: "history_upto render client max_iterations = []"
    "errors_upto render client max_iterations = []"
    "latency_upto render client max_iterations = 0"
    using False by (simp_all add: history_upto_def errors_upto_def latency_upto_def)
  show ?thesis unfolding run_zero_shot_iterative_def e by (simp add: outcome_def h)
qed

lemma find_upto_Some:
  "find P [i..m] = Some c \<longleftrightarrow> i \<le> c \<and> c \<le> m \<and> P c \<and> (\<forall>j\<in>{i..<c}. \<not> P j)"
proof (induction "nat (m + 1 - i)" arbitrary: i)
  case 0
  then have "[i..m] = []" by simp
  then show ?case using 0 by auto
next
  case (Suc n)
  then have le: "i \<le> m" by simp
  then have e: "[i..m] = i # [i + 1..m]" by (simp add: upto_rec1)
  have n: "n = nat (m + 1 - (i + 1))" using Suc.hyps(2) by simp
  note IH = Suc.hyps(1) [OF n]
  show ?case
  proof (cases "P i")
    case True
    then show ?thesis unfolding e using le by (auto simp: atLeastLessThan_iff)
  next
    case False
    have "find P [i..m] = Some c \<longleftrightarrow>
          i + 1 \<le> c \<and> c \<le> m \<and> P c \<and> (\<forall>j\<in>{i + 1..<c}. \<not> P j)"
      unfolding e using False IH by simp
    also have "\<dots> \<longleftrightarrow> i \<le> c \<and> c \<le> m \<and> P c \<and> (\<forall>j\<in>{i..<c}. \<not> P j)" (is "?L \<longleftrightarrow> ?R")
    proof
      assume l: ?L
      have "\<not> P j" if "j \<in> {i..<c}" for j
      proof (cases "j = i")
        case True
        with False show ?thesis by simp
      next
        case ne: False
        with that have "j \<in> {i + 1..<c}" by auto
        with l show ?thesis by blast
      qed
      with l show ?R by auto
    next
      assume r: ?R
      with False have "c \<noteq> i" by auto
      with r have "i + 1 \<le> c" by auto
      moreover from r have "\<forall>j\<in>{i + 1..<c}. \<not> P j" by auto
      ultimately show ?L using r by blast
    qed
    finally show ?thesis .
  qed
qed

lemma find_upto_None: "find P [i..m] = None \<longleftrightarrow> (\<forall>j\<in>{i..m}. \<not> P j)"
  by (auto simp: find_None_iff)

lemma last_successful_unique:
  assumes "j \<in> {1..<i}" "successful render client j" "\<forall>l\<in>{j<..<i}. \<not> successful render client l"
    and "j' \<in> {1..<i}" "successful render client j'" "\<forall>l\<in>{j'<..<i}. \<not> successful render client l"
  shows "j = j'"
proof (rule ccontr)
  assume "j \<noteq> j'"
  then consider "j < j'" | "j' < j" by linarith
  then show False
  proof cases
    case 1
    with assms(4) have "j' \<in> {j<..<i}" by auto
    with assms(3,5) show False by blast
  next
    case 2
    with assms(1) have "j \<in> {j'<..<i}" by auto
    with assms(6,2) show False by blast
  qed
qed

section \<open>Convergence of the iterative strategy\<close>

text \<open>
  C1: for every run of the iterative controller, the run is marked converged with
  \<open>iterations_used = i\<close> exactly when iteration \<open>i\<close> is reached (no earlier iteration
  converged), is successful, and the most recent successful iteration before it has the
  same method identifiers in the same order; the final ranking is then the ranking of
  iteration \<open>i\<close>. In particular, when the most recent successful iteration before a
  successful iteration \<open>i\<close> has a different identifier sequence, a permutation included,
  the run does not converge at \<open>i\<close>.
\<close>

theorem run_zero_shot_iterative_convergence:
  "(let r = run_zero_shot_iterative render client max_iterations in
    ((converged r \<and> iterations_used r = i) \<longleftrightarrow>
       (1 \<le> i \<and> i \<le> max_iterations \<and> converges_at render client i
        \<and> (\<forall>j\<in>{1..<i}. \<not> converges_at render client j)))
    \<and> (converged r \<longrightarrow> final_ranking r = ranking_at render client (iterations_used r))
    \<and> (\<forall>j\<in>{1..<i}.
          successful render client j \<and> successful render client i
          \<and> (\<forall>l\<in>{j<..<i}. \<not> successful render client l)
          \<and> names_at render client j \<noteq> names_at render client i
          \<longrightarrow> \<not> (converged r \<and> iterations_used r = i)))"
proof -
  let ?r = "run_zero_shot_iterative render client max_iterations"
  let ?f = "find (converges_at render client) [1..max_iterations]"
  have r: "?r = outcome render client max_iterations ?f"
    by (rule run_zero_shot_iterative_outcome)
  have a: "(converged ?r \<and> iterations_used ?r = i) \<longleftrightarrow>
       (1 \<le> i \<and> i \<le> max_iterations \<and> converges_at render client i
        \<and> (\<forall>j\<in>{1..<i}. \<not> converges_at render client j))"
  proof (cases ?f)
    case None
    then have "\<forall>j\<in>{1..max_iterations}. \<not> converges_at render client j"
      by (simp only: find_upto_None)
    then show ?thesis unfolding r None by (auto simp: outcome_def)
  next
    case (Some c)
    have "?f = Some i \<longleftrightarrow> (1 \<le> i \<and> i \<le> max_iterations \<and> converges_at render client i
        \<and> (\<forall>j\<in>{1..<i}. \<not> converges_at render client j))"
      by (rule find_upto_Some)
    then show ?thesis unfolding r using Some by (auto simp: outcome_def)
  qed
  have b: "converged ?r \<longrightarrow> final_ranking ?r = ranking_at render client (iterations_used ?r)"
    unfolding r by (cases ?f) (simp_all add: outcome_def)
  have c: "\<not> (converged ?r \<and> iterations_used ?r = i)"
    if "j \<in> {1..<i}" "successful render client j" "successful render client i"
       "\<forall>l\<in>{j<..<i}. \<not> successful render client l"
       "names_at render client j \<noteq> names_at render client i" for j
  proof
    assume "converged ?r \<and> iterations_used ?r = i"
    with a have "converges_at render client i" by blast
    then obtain j' where j': "j' \<in> {1..<i}" "successful render client j'"
      "\<forall>l\<in>{j'<..<i}. \<not> successful render client l"
      "names_at render client j' = names_at render client i"
      unfolding converges_at_def by blast
    have "j = j'" using last_successful_unique [OF that(1,2,4) j'(1,2,3)] .
    with j'(4) that(5) show False by simp
  qed
  show ?thesis unfolding Let_def using a b c by blast
qed

lemma flaky_converges_4: "converges_at (\<lambda>v. '''') flaky_client 4"
  by code_simp
lemma flaky_not_converges: "\<forall>j\<in>{1..<4}. \<not> converges_at (\<lambda>v. '''') flaky_client j"
  by code_simp
lemma flaky_ranking_4: "ranking_at (\<lambda>v. '''') flaky_client 4 = [\<lparr>method_identifier = ''Y'', justification = ''''\<rparr>, \<lparr>method_identifier = ''X'', justification = ''''\<rparr>]"
  by code_simp

theorem run_zero_shot_iterative_convergence_witness:
  "converged (run_zero_shot_iterative (\<lambda>v. '''') flaky_client 5)
   \<and> iterations_used (run_zero_shot_iterative (\<lambda>v. '''') flaky_client 5) = 4
   \<and> final_ranking (run_zero_shot_iterative (\<lambda>v. '''') flaky_client 5) =
       [\<lparr>method_identifier = ''Y'', justification = ''''\<rparr>,
        \<lparr>method_identifier = ''X'', justification = ''''\<rparr>]"
  using run_zero_shot_iterative_convergence [of "\<lambda>v. ''''" flaky_client 5 4]
    flaky_converges_4 flaky_not_converges flaky_ranking_4
  by (simp add: Let_def)

section \<open>Failed iterations and exhaustion\<close>

text \<open>
  C8: the errors of the result are one message for each failed iteration among those the
  run used, in order, and its history holds the successful ones. An iteration whose call
  fails with nothing parsed appends one error message, leaves the history, the previous
  candidates and the previous identifier sequence as they are, and the loop goes on with
  the remaining iterations. When no iteration up to \<open>max_iterations\<close> converges, the
  result is not converged, \<open>iterations_used\<close> is \<open>max_iterations\<close>, and the final ranking
  is that of the last successful iteration, or empty when every iteration failed.
\<close>

theorem failed_iteration_and_exhaustion:
  "(let r = run_zero_shot_iterative render client max_iterations in
      errors r = errors_upto render client (iterations_used r)
      \<and> all_iterations r = history_upto render client (iterations_used r)
      \<and> ((\<forall>j\<in>{1..max_iterations}. \<not> converges_at render client j) \<longrightarrow>
            \<not> converged r \<and> iterations_used r = max_iterations
            \<and> final_ranking r =
                (if filter (successful render client) [1..max_iterations] = [] then []
                 else ranking_at render client
                        (last (filter (successful render client) [1..max_iterations])))))
   \<and> (1 \<le> i \<and> \<not> successful render client i \<longrightarrow>
        errors_upto render client i =
          errors_upto render client (i - 1)
            @ [''Iteration '' @ str_int i @ '': '' @ error_text (response_at render client i)]
        \<and> history_upto render client i = history_upto render client (i - 1)
        \<and> state_before render client (i + 1) = state_before render client i)
   \<and> (call_failed (client i prev_candidates) \<longrightarrow>
      zero_shot_loop render client max_iterations (i # rest) prev_candidates prev_methods
        iters latency errs
      = zero_shot_loop render client max_iterations rest prev_candidates prev_methods iters
          (latency + latency_seconds (client i prev_candidates))
          (errs @ [''Iteration '' @ str_int i @ '': '' @ error_text (client i prev_candidates)]))"
proof -
  let ?r = "run_zero_shot_iterative render client max_iterations"
  let ?f = "find (converges_at render client) [1..max_iterations]"
  have r: "?r = outcome render client max_iterations ?f"
    by (rule run_zero_shot_iterative_outcome)
  have e: "errors ?r = errors_upto render client (iterations_used ?r)"
    unfolding r by (cases ?f) (simp_all add: outcome_def)
  have h: "all_iterations ?r = history_upto render client (iterations_used ?r)"
    unfolding r by (cases ?f) (simp_all add: outcome_def)
  have b: "\<not> converged ?r \<and> iterations_used ?r = max_iterations
           \<and> final_ranking ?r =
               (if filter (successful render client) [1..max_iterations] = [] then []
                else ranking_at render client
                       (last (filter (successful render client) [1..max_iterations])))"
    if "\<forall>j\<in>{1..max_iterations}. \<not> converges_at render client j"
  proof -
    from that have n: "?f = None" by (simp only: find_upto_None)
    show ?thesis unfolding r n by (simp add: outcome_def history_upto_def last_map)
  qed
  have s: "errors_upto render client i =
          errors_upto render client (i - 1)
            @ [''Iteration '' @ str_int i @ '': '' @ error_text (response_at render client i)]
        \<and> history_upto render client i = history_upto render client (i - 1)
        \<and> state_before render client (i + 1) = state_before render client i"
    if "1 \<le> i" "\<not> successful render client i"
    using that errors_upto_step [OF that(1), of render client]
      history_upto_step [OF that(1), of render client] state_before_failed [OF that]
    by simp
  have a: "zero_shot_loop render client max_iterations (i # rest) prev_candidates prev_methods
        iters latency errs
      = zero_shot_loop render client max_iterations rest prev_candidates prev_methods iters
          (latency + latency_seconds (client i prev_candidates))
          (errs @ [''Iteration '' @ str_int i @ '': '' @ error_text (client i prev_candidates)])"
    if "call_failed (client i prev_candidates)"
    using that by (simp add: Let_def)
  show ?thesis unfolding Let_def using e h b s a by blast
qed

lemma flaky_no_convergence_3: "\<forall>j\<in>{1..3}. \<not> converges_at (\<lambda>v. '''') flaky_client j"
  by code_simp
lemma flaky_failed_2: "call_failed (flaky_client 2 (JArray []))"
  by code_simp
lemma flaky_last_3: "filter (successful (\<lambda>v. '''') flaky_client) [1..3] = [1, 3]"
  by code_simp
lemma flaky_ranking_3: "ranking_at (\<lambda>v. '''') flaky_client 3 = [\<lparr>method_identifier = ''Y'', justification = ''''\<rparr>, \<lparr>method_identifier = ''X'', justification = ''''\<rparr>]"
  by code_simp

lemma flaky_errors_3: "errors_upto (\<lambda>v. '''') flaky_client 3 = [''Iteration 2: timeout'']"
  by code_simp
lemma flaky_history_3:
  "history_upto (\<lambda>v. '''') flaky_client 3 =
     [Iteration 1 [cand ''X'' '''', cand ''Y'' ''''] 1, Iteration 3 [cand ''Y'' '''', cand ''X'' ''''] 1]"
  by code_simp
lemma flaky_unsuccessful_2: "\<not> successful (\<lambda>v. '''') flaky_client 2"
  by code_simp
lemma flaky_errors_1: "errors_upto (\<lambda>v. '''') flaky_client 1 = []"
  by code_simp

theorem failed_iteration_and_exhaustion_witness:
  "\<not> converged (run_zero_shot_iterative (\<lambda>v. '''') flaky_client 3)
   \<and> iterations_used (run_zero_shot_iterative (\<lambda>v. '''') flaky_client 3) = 3
   \<and> final_ranking (run_zero_shot_iterative (\<lambda>v. '''') flaky_client 3) =
       [\<lparr>method_identifier = ''Y'', justification = ''''\<rparr>,
        \<lparr>method_identifier = ''X'', justification = ''''\<rparr>]
   \<and> errors (run_zero_shot_iterative (\<lambda>v. '''') flaky_client 3) = [''Iteration 2: timeout'']
   \<and> all_iterations (run_zero_shot_iterative (\<lambda>v. '''') flaky_client 3) =
       [Iteration 1 [cand ''X'' '''', cand ''Y'' ''''] 1, Iteration 3 [cand ''Y'' '''', cand ''X'' ''''] 1]
   \<and> errors_upto (\<lambda>v. '''') flaky_client 2 = [''Iteration 2: timeout'']
   \<and> state_before (\<lambda>v. '''') flaky_client 3 = state_before (\<lambda>v. '''') flaky_client 2
   \<and> zero_shot_loop (\<lambda>v. '''') flaky_client 3 [2, 3] (JArray []) None [] 0 []
     = zero_shot_loop (\<lambda>v. '''') flaky_client 3 [3] (JArray []) None [] 1 [''Iteration 2: timeout'']"
proof -
  have m: "''Iteration '' @ str_int 2 @ '': '' @ error_text (flaky_client 2 (JArray [])) = ''Iteration 2: timeout''"
    by code_simp
  have m': "''Iteration '' @ str_int 2 @ '': '' @ error_text (response_at (\<lambda>v. '''') flaky_client 2) = ''Iteration 2: timeout''"
    by code_simp
  have l: "latency_seconds (flaky_client 2 (JArray [])) = 1" by code_simp
  show ?thesis
    using failed_iteration_and_exhaustion [of "\<lambda>v. ''''" flaky_client 3 2 "JArray []" "[3]" None "[]" 0 "[]"]
      flaky_failed_2 flaky_no_convergence_3 flaky_last_3 flaky_ranking_3 m m' l
      flaky_errors_3 flaky_history_3 flaky_unsuccessful_2 flaky_errors_1
    by (simp add: Let_def)
qed

section \<open>The statistics dictionary\<close>

lemma first_seen_Nil [simp]: "first_seen [] = []"
  by (simp add: first_seen_def)

lemma first_seen_snoc:
  "first_seen (xs @ [x]) = (if x \<in> set xs then first_seen xs else first_seen xs @ [x])"
  by (simp add: first_seen_def)

lemma set_first_seen [simp]: "set (first_seen xs) = set xs"
  by (simp add: first_seen_def)

lemma distinct_first_seen [simp]: "distinct (first_seen xs)"
  by (simp add: first_seen_def)

lemma map_of_tabulate:
  "map_of (map (\<lambda>m. (m, f m)) ks) k = (if k \<in> set ks then Some (f k) else None)"
  by (induction ks) auto

lemma update_tabulate_in:
  "k \<in> set ks \<Longrightarrow> distinct ks \<Longrightarrow>
   AList.update k v (map (\<lambda>m. (m, f m)) ks) = map (\<lambda>m. (m, if m = k then v else f m)) ks"
  by (induction ks) (auto simp: AList.update.simps)

lemma update_tabulate_notin:
  "k \<notin> set ks \<Longrightarrow>
   AList.update k v (map (\<lambda>m. (m, f m)) ks) = map (\<lambda>m. (m, f m)) ks @ [(k, v)]"
  by (induction ks) (auto simp: AList.update.simps)

lemma stats_of_notin:
  "m \<notin> set (voted_identifiers occs) \<Longrightarrow> m \<noteq> [] \<Longrightarrow>
   stats_of occs m = \<lparr> count = 0, ranks = [], justifications = [] \<rparr>"
proof -
  assume a: "m \<notin> set (voted_identifiers occs)" "m \<noteq> []"
  then have "filter (\<lambda>p. method_identifier (snd p) = m) occs = []"
    by (auto simp: voted_identifiers_def filter_empty_conv)
  then show ?thesis by (simp add: stats_of_def)
qed

lemma stats_of_snoc:
  "stats_of (occs @ [(rank, item)]) m =
     (if method_identifier item = m
      then \<lparr> count = count (stats_of occs m) + 1, ranks = ranks (stats_of occs m) @ [rank],
             justifications =
               (if justification item \<noteq> [] then justifications (stats_of occs m) @ [justification item]
                else justifications (stats_of occs m)) \<rparr>
      else stats_of occs m)"
  by (simp add: stats_of_def)

lemma distinct_voted_identifiers [simp]: "distinct (voted_identifiers occs)"
  by (simp add: voted_identifiers_def)

lemma voted_identifiers_snoc:
  "voted_identifiers (occs @ [(rank, item)]) =
     (if method_identifier item = [] \<or> method_identifier item \<in> set (voted_identifiers occs)
      then voted_identifiers occs
      else voted_identifiers occs @ [method_identifier item])"
  by (auto simp: voted_identifiers_def first_seen_snoc)

lemma add_item_tabulate:
  "add_item (rank, item) (map (\<lambda>m. (m, stats_of occs m)) (voted_identifiers occs)) =
     map (\<lambda>m. (m, stats_of (occs @ [(rank, item)]) m)) (voted_identifiers (occs @ [(rank, item)]))"
proof (cases "method_identifier item = []")
  case True
  have "[] \<notin> set (voted_identifiers occs)" by (auto simp: voted_identifiers_def)
  then have "\<forall>m\<in>set (voted_identifiers occs). stats_of (occs @ [(rank, item)]) m = stats_of occs m"
    using True by (auto simp: stats_of_snoc)
  then show ?thesis using True by (simp add: add_item_def voted_identifiers_snoc)
next
  case ne: False
  show ?thesis
  proof (cases "method_identifier item \<in> set (voted_identifiers occs)")
    case True
    show ?thesis
      using ne True
      by (simp add: add_item_def voted_identifiers_snoc map_of_tabulate update_tabulate_in
          stats_of_snoc Let_def)
  next
    case False
    have "map (\<lambda>m. (m, stats_of (occs @ [(rank, item)]) m)) (voted_identifiers occs) =
          map (\<lambda>m. (m, stats_of occs m)) (voted_identifiers occs)"
      using False by (auto simp: stats_of_snoc)
    then show ?thesis
      using ne False stats_of_notin [OF False ne]
      by (simp add: add_item_def voted_identifiers_snoc map_of_tabulate update_tabulate_notin
          stats_of_snoc Let_def)
  qed
qed

lemma fold_add_item:
  "fold add_item occs [] = map (\<lambda>m. (m, stats_of occs m)) (voted_identifiers occs)"
proof (induction occs rule: rev_induct)
  case Nil
  show ?case by (simp add: voted_identifiers_def)
next
  case (snoc p occs)
  obtain rank item where p: "p = (rank, item)" by (cases p)
  show ?case using snoc add_item_tabulate [of rank item occs] by (simp add: p)
qed

lemma fold_add_run:
  "fold add_run runs stats =
     fold add_item (concat (map (\<lambda>run. enumerate 1 (entry_methods run)) runs)) stats"
  by (induction runs arbitrary: stats) (simp_all add: add_run_def)

lemma collect_stats_tabulate:
  "collect_stats runs =
     map (\<lambda>m. (m, stats_of (round_occurrences runs) m)) (voted_identifiers (round_occurrences runs))"
  by (simp add: collect_stats_def fold_add_run fold_add_item round_occurrences_def)

lemma insort_key_map:
  "insort_key f (g x) (map g ys) = map g (insort_key (\<lambda>y. f (g y)) x ys)"
  by (induction ys) simp_all

lemma sort_key_map:
  "sort_key f (map g xs) = map g (sort_key (\<lambda>y. f (g y)) xs)"
  by (induction xs) (simp_all add: insort_key_map)

lemma concat_map_if:
  "concat (map (\<lambda>r. if P r then [g r] else []) rs) = map g (filter P rs)"
  by (induction rs) simp_all

lemma map_snd_enumerate_comp:
  "map (\<lambda>p. f (snd p)) (enumerate n xs) = map f xs"
  by (induction xs arbitrary: n) simp_all

lemma voted_identifiers_rounds:
  "voted_identifiers (round_occurrences runs) = consensus_identifiers runs"
  by (simp add: voted_identifiers_def round_occurrences_def consensus_identifiers_def
      map_concat comp_def map_snd_enumerate_comp)

lemma filter_enumerate_distinct:
  "distinct (map method_identifier ms) \<Longrightarrow>
   filter (\<lambda>p. method_identifier (snd p) = m) (enumerate n ms) =
     (if m \<in> set (map method_identifier ms)
      then [(n + length (takeWhile (\<lambda>item. method_identifier item \<noteq> m) ms),
             the (find (\<lambda>item. method_identifier item = m) ms))]
      else [])"
proof (induction ms arbitrary: n)
  case Nil
  show ?case by simp
next
  case (Cons x xs)
  then have d: "distinct (map method_identifier xs)"
    and nx: "method_identifier x \<notin> set (map method_identifier xs)" by simp_all
  show ?case
  proof (cases "method_identifier x = m")
    case True
    with nx have "m \<notin> set (map method_identifier xs)" by simp
    then show ?thesis using True Cons.IH [OF d, of "Suc n"] by simp
  next
    case False
    then show ?thesis using Cons.IH [OF d, of "Suc n"] by auto
  qed
qed

lemma occurrences_of_identifier:
  assumes "\<forall>run\<in>set runs. distinct (map method_identifier (entry_methods run))"
  shows "filter (\<lambda>p. method_identifier (snd p) = m) (round_occurrences runs) =
     map (\<lambda>run. (position_in m (entry_methods run),
                  the (find (\<lambda>item. method_identifier item = m) (entry_methods run))))
       (rounds_with runs m)"
proof -
  have "filter (\<lambda>p. method_identifier (snd p) = m) (round_occurrences runs) =
        concat (map (\<lambda>run. filter (\<lambda>p. method_identifier (snd p) = m)
                              (enumerate 1 (entry_methods run))) runs)"
    by (simp add: round_occurrences_def filter_concat comp_def)
  also have "\<dots> = concat (map (\<lambda>run. if appears_in m run
       then [(position_in m (entry_methods run),
              the (find (\<lambda>item. method_identifier item = m) (entry_methods run)))]
       else []) runs)"
    using assms
    by (intro arg_cong [where f = concat] map_cong refl)
       (simp add: filter_enumerate_distinct appears_in_def position_in_def)
  also have "\<dots> = map (\<lambda>run. (position_in m (entry_methods run),
                  the (find (\<lambda>item. method_identifier item = m) (entry_methods run))))
       (rounds_with runs m)"
    unfolding rounds_with_def by (rule concat_map_if)
  finally show ?thesis .
qed

lemma justification_in_appears:
  "appears_in m run \<Longrightarrow>
   justification (the (find (\<lambda>item. method_identifier item = m) (entry_methods run)))
     = justification_in m (entry_methods run)"
proof -
  assume "appears_in m run"
  then have "find (\<lambda>item. method_identifier item = m) (entry_methods run) \<noteq> None"
    by (auto simp: appears_in_def find_None_iff)
  then show ?thesis by (auto simp: justification_in_def)
qed

lemma stats_item_consensus:
  assumes "\<forall>run\<in>set runs. distinct (map method_identifier (entry_methods run))"
  shows "stats_item (m, stats_of (round_occurrences runs) m) =
     (m, consensus_count runs m, consensus_avg_rank runs m, consensus_justification runs m)"
proof -
  note o = occurrences_of_identifier [OF assms, of m]
  have j: "map (\<lambda>run. justification
              (the (find (\<lambda>item. method_identifier item = m) (entry_methods run))))
            (rounds_with runs m)
         = map (\<lambda>run. justification_in m (entry_methods run)) (rounds_with runs m)"
    by (rule map_cong) (simp_all add: rounds_with_def justification_in_appears)
  show ?thesis
    by (simp add: stats_item_def stats_of_def o comp_def consensus_count_def
        consensus_avg_rank_def consensus_justification_def j)
qed

section \<open>Consensus voting\<close>

text \<open>
  C2, as the specification states it, for every list of round results: the count of an
  identifier is the number of rounds in which it appears. A round that names \<open>A\<close> twice
  counts \<open>A\<close> twice: for the single round \<open>[B, A, A]\<close> the code ranks \<open>A\<close> (count 2) before
  \<open>B\<close>, the specified vote ranks \<open>B\<close> (count 1, rank 1) before \<open>A\<close> (count 1, rank 2).
\<close>

theorem aggregate_results_counts_repeats:
  "aggregate_results repeated_round 2 \<noteq> consensus_ranking repeated_round 2"
  by code_simp

text \<open>
  C2, amended: for every list of round results in which no round names the same identifier
  twice, and every \<open>K \<ge> 0\<close>, the aggregator gives each identifier the number of rounds in
  which it appears as count and the mean of its 1-based positions in those rounds as
  average rank, sorts the identifiers by \<open>(-count, avg_rank)\<close> ascending (equal keys in
  order of first appearance), and returns the first \<open>K\<close>. For the rounds \<open>[A, B]\<close>,
  \<open>[B, A]\<close>, \<open>[A]\<close> the output order is \<open>[A, B]\<close>.
\<close>

theorem aggregate_results_consensus:
  assumes "\<forall>run\<in>set runs. distinct (map method_identifier (entry_methods run))"
    and "0 \<le> K"
  shows "aggregate_results runs K = consensus_ranking runs K"
proof -
  let ?g = "\<lambda>m. (m, consensus_count runs m, consensus_avg_rank runs m,
                 consensus_justification runs m)"
  have items: "map stats_item (collect_stats runs) = map ?g (consensus_identifiers runs)"
    by (simp add: collect_stats_tabulate voted_identifiers_rounds comp_def
        stats_item_consensus [OF assms(1)])
  have sorted: "sort_key sort_key_of (map ?g (consensus_identifiers runs)) =
      map ?g (sort_key (\<lambda>m. (- int (consensus_count runs m), consensus_avg_rank runs m))
                (consensus_identifiers runs))"
    by (simp add: sort_key_map sort_key_of_def)
  show ?thesis
    using assms(2)
    by (simp add: aggregate_results_def items sorted py_prefix_def consensus_ranking_def
        take_map comp_def)
qed

lemma voting_rounds_distinct:
  "\<forall>run\<in>set voting_rounds. distinct (map method_identifier (entry_methods run))"
  by code_simp

lemma consensus_ranking_voting_rounds:
  "consensus_ranking voting_rounds 10 = [cand ''A'' ''a'', cand ''B'' ''b'']"
  by code_simp

theorem aggregate_results_consensus_witness:
  "aggregate_results voting_rounds 10 = [cand ''A'' ''a'', cand ''B'' ''b'']"
  using aggregate_results_consensus [OF voting_rounds_distinct, of 10]
    consensus_ranking_voting_rounds
  by simp

section \<open>The order of the rounds\<close>

lemma fold_shortest:
  "fold (\<lambda>x best. if length x < length best then x else best) rest j \<in> set (j # rest)
   \<and> (\<forall>c\<in>set (j # rest).
         length (fold (\<lambda>x best. if length x < length best then x else best) rest j) \<le> length c)"
proof (induction rest arbitrary: j)
  case Nil
  show ?case by simp
next
  case (Cons x rest)
  show ?case
  proof (cases "length x < length j")
    case True
    with Cons.IH [of x] show ?thesis by auto
  next
    case False
    with Cons.IH [of j] show ?thesis by auto
  qed
qed

lemma shortest_minimal:
  "js \<noteq> [] \<Longrightarrow> shortest js \<in> set js \<and> (\<forall>c\<in>set js. length (shortest js) \<le> length c)"
  using fold_shortest by (cases js) (simp_all add: shortest_def)

lemma shortest_unique:
  assumes "set js = set js'" "unique_shortest js"
  shows "shortest js = shortest js'"
proof (cases "js = []")
  case True
  with assms(1) have "js' = []" by simp
  with True show ?thesis by simp
next
  case False
  with assms(1) have ne: "js' \<noteq> []" by auto
  from shortest_minimal [OF False] shortest_minimal [OF ne] assms
  show ?thesis unfolding unique_shortest_def by blast
qed

lemma mset_round_occurrences:
  "mset runs = mset runs' \<Longrightarrow> mset (round_occurrences runs) = mset (round_occurrences runs')"
proof -
  assume a: "mset runs = mset runs'"
  have "mset (round_occurrences rs) =
        sum_mset (image_mset (\<lambda>run. mset (enumerate 1 (entry_methods run))) (mset rs))" for rs
    by (simp add: round_occurrences_def mset_concat comp_def flip: sum_mset_sum_list)
  with a show ?thesis by simp
qed

lemma stats_item_permuted:
  assumes "mset occs = mset occs'" "unique_shortest (justifications (stats_of occs m))"
  shows "stats_item (m, stats_of occs m) = stats_item (m, stats_of occs' m)"
proof -
  let ?P = "\<lambda>p. method_identifier (snd p) = m"
  have f: "mset (filter ?P occs) = mset (filter ?P occs')" using assms(1) by simp
  then have c: "length (filter ?P occs) = length (filter ?P occs')" by (rule mset_eq_length)
  have "mset (map fst (filter ?P occs)) = mset (map fst (filter ?P occs'))" using f by simp
  then have s: "sum_list (map fst (filter ?P occs)) = sum_list (map fst (filter ?P occs'))"
    by (metis sum_mset_sum_list)
  have "mset (filter (\<lambda>j. j \<noteq> []) (map (\<lambda>p. justification (snd p)) (filter ?P occs))) =
        mset (filter (\<lambda>j. j \<noteq> []) (map (\<lambda>p. justification (snd p)) (filter ?P occs')))"
    using f by simp
  then have "set (justifications (stats_of occs m)) = set (justifications (stats_of occs' m))"
    unfolding stats_of_def by (simp only: method_stats.simps) (rule mset_eq_setD)
  then have j: "shortest (justifications (stats_of occs m)) =
      shortest (justifications (stats_of occs' m))"
    using assms(2) by (rule shortest_unique)
  show ?thesis
    using j c s by (simp add: stats_item_def stats_of_def)
qed



lemma voting_rounds_permuted: "mset voting_rounds = mset voting_rounds_reordered"
  by (simp add: voting_rounds_def voting_rounds_reordered_def)

lemma voting_rounds_keys_distinct:
  "distinct (map sort_key_of (map stats_item (collect_stats voting_rounds)))"
  by code_simp

lemma voting_rounds_unique_shortest:
  "\<forall>p\<in>set (collect_stats voting_rounds). unique_shortest (justifications (snd p))"
  by code_simp


section \<open>The totals of the evaluation report\<close>

lemma snd_project_block:
  "snd (project_block fmt4 pr p (ls, t)) = step_totals pr p t"
proof (cases "bugs_of pr p = []")
  case True
  then show ?thesis by (simp add: project_block_def step_totals_def project_mean_def)
next
  case False
  then show ?thesis
    by (simp add: project_block_def step_totals_def project_mean_def Let_def)
qed

lemma snd_fold_project_block:
  "snd (fold (project_block fmt4 pr) ps (ls, t)) = fold (step_totals pr) ps t"
proof (induction ps arbitrary: ls t)
  case Nil
  show ?case by simp
next
  case (Cons p ps)
  obtain ls' t' where s: "project_block fmt4 pr p (ls, t) = (ls', t')"
    by (cases "project_block fmt4 pr p (ls, t)")
  then have "t' = step_totals pr p t" using snd_project_block [of fmt4 pr p ls t] by simp
  then show ?case using Cons.IH [of ls' t'] by (simp add: s)
qed

lemma fold_step_totals:
  "total_bugs (fold (step_totals pr) ps t) =
     total_bugs t + (\<Sum>p\<leftarrow>ps. int (length (bugs_of pr p)))"
  "total_top1 (fold (step_totals pr) ps t) =
     total_top1 t + (\<Sum>p\<leftarrow>ps. int (length (filter (\<lambda>b. top_1 (metrics b)) (bugs_of pr p))))"
  "total_top3 (fold (step_totals pr) ps t) =
     total_top3 t + (\<Sum>p\<leftarrow>ps. int (length (filter (\<lambda>b. top_3 (metrics b)) (bugs_of pr p))))"
  "total_top5 (fold (step_totals pr) ps t) =
     total_top5 t + (\<Sum>p\<leftarrow>ps. int (length (filter (\<lambda>b. top_5 (metrics b)) (bugs_of pr p))))"
  "total_precision (fold (step_totals pr) ps t) =
     total_precision t
       + (\<Sum>p\<leftarrow>ps. project_mean precision (bugs_of pr p) * of_nat (length (bugs_of pr p)))"
  "total_recall (fold (step_totals pr) ps t) =
     total_recall t
       + (\<Sum>p\<leftarrow>ps. project_mean recall (bugs_of pr p) * of_nat (length (bugs_of pr p)))"
  "total_f1 (fold (step_totals pr) ps t) =
     total_f1 t + (\<Sum>p\<leftarrow>ps. project_mean f1 (bugs_of pr p) * of_nat (length (bugs_of pr p)))"
  "total_accuracy (fold (step_totals pr) ps t) =
     total_accuracy t
       + (\<Sum>p\<leftarrow>ps. project_mean accuracy (bugs_of pr p) * of_nat (length (bugs_of pr p)))"
  by (induction ps arbitrary: t; simp add: step_totals_def)+

lemma sum_list_sort:
  fixes h :: "'a::linorder \<Rightarrow> 'b::comm_monoid_add"
  shows "sum_list (map h (sort ks)) = sum_list (map h ks)"
proof -
  have "mset (map h (sort ks)) = mset (map h ks)" by simp
  then show ?thesis by (metis sum_mset_sum_list)
qed

lemma bugs_of_key:
  "distinct (map fst pr) \<Longrightarrow> g \<in> set pr \<Longrightarrow> bugs_of pr (fst g) = snd g"
  by (cases g) (simp add: bugs_of_def)

lemma sum_sorted_keys:
  fixes h :: "bug_result list \<Rightarrow> 'b::comm_monoid_add"
  assumes "distinct (map fst pr)"
  shows "(\<Sum>p\<leftarrow>sort (map fst pr). h (bugs_of pr p)) = (\<Sum>g\<leftarrow>pr. h (snd g))"
proof -
  have "(\<Sum>p\<leftarrow>sort (map fst pr). h (bugs_of pr p)) = (\<Sum>p\<leftarrow>map fst pr. h (bugs_of pr p))"
    by (rule sum_list_sort)
  also have "\<dots> = (\<Sum>g\<leftarrow>pr. h (bugs_of pr (fst g)))" by (simp add: comp_def)
  also have "\<dots> = (\<Sum>g\<leftarrow>pr. h (snd g))"
    by (rule arg_cong [where f = sum_list], rule map_cong) (simp_all add: bugs_of_key [OF assms])
  finally show ?thesis .
qed

lemma distinct_add_result:
  "distinct (map fst pr) \<Longrightarrow> distinct (map fst (add_result gt k res pr))"
  by (cases res) (simp add: add_result_def Let_def distinct_update)

lemma distinct_fold_add_result:
  "distinct (map fst pr) \<Longrightarrow> distinct (map fst (fold (add_result gt k) results pr))"
  by (induction results arbitrary: pr) (simp_all add: distinct_add_result)

lemma distinct_group_results: "distinct (map fst (group_results gt k results))"
  by (simp add: group_results_def distinct_fold_add_result)

lemma int_sum_list: "int (sum_list (map f xs)) = (\<Sum>x\<leftarrow>xs. int (f x))"
  by (induction xs) simp_all

lemma project_loop_counts:
  assumes "distinct (map fst pr)"
  shows "total_bugs (snd (project_loop fmt4 pr ls)) = int (corpus_size pr)"
    and "total_top1 (snd (project_loop fmt4 pr ls)) = int (hits top_1 pr)"
    and "total_top3 (snd (project_loop fmt4 pr ls)) = int (hits top_3 pr)"
    and "total_top5 (snd (project_loop fmt4 pr ls)) = int (hits top_5 pr)"
  using sum_sorted_keys [OF assms, of "\<lambda>bugs. int (length bugs)"]
    sum_sorted_keys [OF assms, of "\<lambda>bugs. int (length (filter (\<lambda>b. top_1 (metrics b)) bugs))"]
    sum_sorted_keys [OF assms, of "\<lambda>bugs. int (length (filter (\<lambda>b. top_3 (metrics b)) bugs))"]
    sum_sorted_keys [OF assms, of "\<lambda>bugs. int (length (filter (\<lambda>b. top_5 (metrics b)) bugs))"]
  by (simp_all add: project_loop_def snd_fold_project_block fold_step_totals
      corpus_size_def hits_def int_sum_list)

lemma project_loop_sums:
  assumes "distinct (map fst pr)"
  shows "total_precision (snd (project_loop fmt4 pr ls)) / of_nat (corpus_size pr)
           = mean_of_means precision pr"
    and "total_recall (snd (project_loop fmt4 pr ls)) / of_nat (corpus_size pr)
           = mean_of_means recall pr"
    and "total_f1 (snd (project_loop fmt4 pr ls)) / of_nat (corpus_size pr)
           = mean_of_means f1 pr"
    and "total_accuracy (snd (project_loop fmt4 pr ls)) / of_nat (corpus_size pr)
           = mean_of_means accuracy pr"
  using sum_sorted_keys [OF assms, of "\<lambda>bugs. project_mean precision bugs * of_nat (length bugs)"]
    sum_sorted_keys [OF assms, of "\<lambda>bugs. project_mean recall bugs * of_nat (length bugs)"]
    sum_sorted_keys [OF assms, of "\<lambda>bugs. project_mean f1 bugs * of_nat (length bugs)"]
    sum_sorted_keys [OF assms, of "\<lambda>bugs. project_mean accuracy bugs * of_nat (length bugs)"]
  by (simp_all add: project_loop_def snd_fold_project_block fold_step_totals mean_of_means_def)

lemma global_lines_mean_of_means:
  "global_lines fmt4 benchmark_type
     (snd (project_loop fmt4 (group_results ground_truth k results) ls))
   = mean_of_means_lines fmt4 benchmark_type (group_results ground_truth k results)"
  by (simp add: global_lines_def mean_of_means_lines_def
      project_loop_counts [OF distinct_group_results]
      project_loop_sums [OF distinct_group_results])

section \<open>The global summary is a mean of project means\<close>

text \<open>
  C3: for every list of per-bug results and every ground truth, the report ends with the
  global summary in which each printed average (precision, recall, f1, accuracy; F1 and
  accuracy only in the \<open>python\<close> layout) is the average of the per-project mean metrics
  weighted by each project's bug count. It is not a recomputation from pooled raw counts:
  on the example corpus the mean of means of the precision is 11/18, the pooled precision
  \<open>tp / (tp + fp)\<close> is 1/2.
\<close>

theorem generate_evaluation_report_mean_of_means:
  "generate_evaluation_report fmt4 results ground_truth k benchmark_type =
     join_lines
       (fst (project_loop fmt4 (group_results ground_truth k results)
               (header_lines k benchmark_type))
        @ mean_of_means_lines fmt4 benchmark_type (group_results ground_truth k results))
   \<and> mean_of_means precision (group_results example_truth 5 example_results)
       \<noteq> pooled_precision example_truth 5 example_results"
proof -
  have "mean_of_means precision (group_results example_truth 5 example_results)
       \<noteq> pooled_precision example_truth 5 example_results"
    by code_simp
  then show ?thesis
    by (simp add: generate_evaluation_report_def Let_def global_lines_mean_of_means)
qed

lemma example_summary:
  "mean_of_means_lines show_rat ''python'' (group_results example_truth 5 example_results) =
     [''GLOBAL AVERAGES'', ''---------------'', ''Total Bugs Processed: 3'',
      ''Average F1 Score:     13/18'', ''Average Accuracy:     4/5'']"
  by code_simp

theorem generate_evaluation_report_mean_of_means_witness:
  "generate_evaluation_report show_rat example_results example_truth 5 ''python'' =
     join_lines
       (fst (project_loop show_rat (group_results example_truth 5 example_results)
               (header_lines 5 ''python''))
        @ [''GLOBAL AVERAGES'', ''---------------'', ''Total Bugs Processed: 3'',
           ''Average F1 Score:     13/18'', ''Average Accuracy:     4/5''])"
  using generate_evaluation_report_mean_of_means
    [of show_rat example_results example_truth 5 "''python''"]
  by (simp only: example_summary)

end
